theory Spec2Isabelle
  imports Complex_Main
begin

section \<open>Python values used by animate.py\<close>

text \<open>
  A Python \<open>str\<close> is a \<open>string\<close>: a list of characters with code points below 256.
  Code points above 255 (among them the line separators U+2028 and U+2029) are outside
  this type. Python's unbounded \<open>int\<close> is \<open>int\<close>; the float \<open>frame_delay\<close> is a \<open>rat\<close>, of
  which the code only asks whether \<open>time.sleep\<close> accepts it.
\<close>

definition py_ord :: "char \<Rightarrow> nat" where
  "py_ord c = of_char c"

definition in_range :: "char \<Rightarrow> nat \<Rightarrow> nat \<Rightarrow> bool" where
  "in_range c lo hi = (lo \<le> py_ord c \<and> py_ord c \<le> hi)"

definition ESC :: char where
  "ESC = CHR 0x1B"

text \<open>\<open>str(n)\<close> for an integer, used by the f-strings of the source.\<close>

definition digit_char :: "nat \<Rightarrow> char" where
  "digit_char d = ''0123456789'' ! d"

fun str_nat :: "nat \<Rightarrow> string" where
  "str_nat n = (if n < 10 then [digit_char n] else str_nat (n div 10) @ [digit_char (n mod 10)])"

declare str_nat.simps [simp del]

definition str_int :: "int \<Rightarrow> string" where
  "str_int i = (if i < 0 then ''-'' @ str_nat (nat (- i)) else str_nat (nat i))"

text \<open>\<open>range(a, b)\<close> and \<open>enumerate(xs)\<close>, as the lists a \<open>for\<close> loop runs through.\<close>

definition py_range :: "int \<Rightarrow> int \<Rightarrow> int list" where
  "py_range a b = [a..b - 1]"

definition py_enumerate :: "'a list \<Rightarrow> (int \<times> 'a) list" where
  "py_enumerate xs = zip (py_range 0 (int (length xs))) xs"

text \<open>\<open>max(iterable)\<close> on a non-empty sequence: the first item, then each later one compared.\<close>

definition py_max :: "int list \<Rightarrow> int" where
  "py_max xs = fold max (tl xs) (hd xs)"

subsection \<open>\<open>str.splitlines()\<close>\<close>

text \<open>
  The line boundaries of \<open>str.splitlines\<close> below code point 256: LF, CR, CR LF (one
  boundary), VT, FF, FS, GS, RS and NEL. A final line break opens no further line.
\<close>

definition is_linebreak :: "char \<Rightarrow> bool" where
  "is_linebreak c = (c \<in> set [CHR 0x0A, CHR 0x0D, CHR 0x0B, CHR 0x0C, CHR 0x1C, CHR 0x1D, CHR 0x1E, CHR 0x85])"

fun splitlines_from :: "string \<Rightarrow> string \<Rightarrow> string list" where
  "splitlines_from cur [] = (if cur = [] then [] else [cur])"
| "splitlines_from cur (c # cs) =
     (if c = CHR 0x0D then
        (case cs of
           [] \<Rightarrow> cur # splitlines_from [] cs
         | d # ds \<Rightarrow> if d = CHR 0x0A then cur # splitlines_from [] ds
                     else cur # splitlines_from [] cs)
      else if is_linebreak c then cur # splitlines_from [] cs
      else splitlines_from (cur @ [c]) cs)"

definition splitlines :: "string \<Rightarrow> string list" where
  "splitlines content = splitlines_from [] content"

subsection \<open>\<open>re.sub\<close> with the escape-sequence pattern of \<open>strip_ansi\<close>\<close>

text \<open>
  The pattern is ESC followed by one of two alternatives: the class \<^verbatim>\<open>[@-Z\\-_]\<close>, that is
  one character of \<^verbatim>\<open>@\<close>..\<^verbatim>\<open>Z\<close> or of backslash..\<^verbatim>\<open>_\<close>; or an escaped \<^verbatim>\<open>[\<close> followed
  by \<^verbatim>\<open>[0-?]*\<close> (parameter characters, 0x30..0x3F), \<^verbatim>\<open>[ -/]*\<close> (intermediate
  characters, 0x20..0x2F) and \<^verbatim>\<open>[@-~]\<close> (one final character, 0x40..0x7E). The three
  classes are disjoint, so the greedy match is the only one.
  \<open>match_escape cs\<close> is the text left after a match that starts at the ESC before \<open>cs\<close>;
  where there is no match the ESC stays in the text.
\<close>

definition match_escape :: "string \<Rightarrow> string option" where
  "match_escape cs =
     (case cs of
        [] \<Rightarrow> None
      | c # rest \<Rightarrow>
          if in_range c 0x40 0x5A \<or> in_range c 0x5C 0x5F then Some rest
          else if c = CHR ''['' then
            (case dropWhile (\<lambda>x. in_range x 0x20 0x2F) (dropWhile (\<lambda>x. in_range x 0x30 0x3F) rest) of
               [] \<Rightarrow> None
             | f # after \<Rightarrow> if in_range f 0x40 0x7E then Some after else None)
          else None)"

lemma length_dropWhile_le': "length (dropWhile P xs) \<le> length xs"
  by (induction xs) auto

lemma match_escape_shorter: "match_escape cs = Some rest \<Longrightarrow> length rest < length cs"
proof (cases cs)
  case Nil
  assume "match_escape cs = Some rest"
  with Nil show ?thesis by (simp add: match_escape_def)
next
  case (Cons c tl)
  assume m: "match_escape cs = Some rest"
  let ?d = "dropWhile (\<lambda>x. in_range x 0x20 0x2F) (dropWhile (\<lambda>x. in_range x 0x30 0x3F) tl)"
  have d: "length ?d \<le> length tl"
    by (rule order_trans [OF length_dropWhile_le' length_dropWhile_le'])
  from m Cons d show ?thesis
    by (auto simp: match_escape_def split: if_splits list.splits)
qed

function strip_ansi :: "string \<Rightarrow> string" where
  "strip_ansi [] = []"
| "strip_ansi (c # cs) =
     (if c = ESC then
        (case match_escape cs of
           Some rest \<Rightarrow> strip_ansi rest
         | None \<Rightarrow> c # strip_ansi cs)
      else c # strip_ansi cs)"
  by pat_completeness auto
termination
proof (relation "measure length")
  show "wf (measure length)" by simp
next
  fix c :: char and cs rest :: string
  assume "match_escape cs = Some rest"
  then have "length rest < length cs" by (rule match_escape_shorter)
  then show "(rest, c # cs) \<in> measure length" by simp
qed auto

subsection \<open>\<open>repr\<close> and \<open>int\<close> of a string\<close>

text \<open>
  \<open>repr(s)\<close>: single quotes unless \<open>s\<close> holds a single quote and no double quote; the
  quote and the backslash escaped, TAB, LF and CR by letter, every other character that is
  not printable as \<^verbatim>\<open>\xhh\<close>.
\<close>

definition hex_char :: "nat \<Rightarrow> char" where
  "hex_char d = ''0123456789abcdef'' ! d"

definition repr_quote :: "string \<Rightarrow> char" where
  "repr_quote s = (if CHR 0x27 \<in> set s \<and> CHR 0x22 \<notin> set s then CHR 0x22 else CHR 0x27)"

definition repr_char :: "char \<Rightarrow> char \<Rightarrow> string" where
  "repr_char q c =
     (if c = q \<or> c = CHR 0x5C then [CHR 0x5C, c]
      else if c = CHR 0x09 then [CHR 0x5C, CHR ''t'']
      else if c = CHR 0x0A then [CHR 0x5C, CHR ''n'']
      else if c = CHR 0x0D then [CHR 0x5C, CHR ''r'']
      else if py_ord c < 32 \<or> py_ord c = 127 \<or> (128 \<le> py_ord c \<and> py_ord c \<le> 160)
              \<or> py_ord c = 173
        then [CHR 0x5C, CHR ''x'', hex_char (py_ord c div 16), hex_char (py_ord c mod 16)]
      else [c])"

definition py_repr :: "string \<Rightarrow> string" where
  "py_repr s = (let q = repr_quote s in q # concat (map (repr_char q) s) @ [q])"

text \<open>
  \<open>int(s)\<close> in base 10: white space around, one optional sign, then decimal digits with
  single underscores between digits. The white space \<open>int\<close> skips below code point 256 is
  TAB, LF, VT, FF, CR, space, NEL and NBSP. Anything else raises \<open>ValueError\<close>. (The limit
  of 4300 digits is beyond the length of a file name.)
\<close>

datatype exn = KeyboardInterrupt | ValueError string | OSError string | UnicodeDecodeError string

definition int_space :: "char \<Rightarrow> bool" where
  "int_space c = (py_ord c \<in> set [9, 10, 11, 12, 13, 32, 133, 160])"

definition is_digit :: "char \<Rightarrow> bool" where
  "is_digit c = in_range c 48 57"

definition digit_value :: "char \<Rightarrow> int" where
  "digit_value c = int (py_ord c) - 48"

fun scan_digits :: "char \<Rightarrow> int \<Rightarrow> string \<Rightarrow> (int \<times> char \<times> string) option" where
  "scan_digits prev acc [] = Some (acc, prev, [])"
| "scan_digits prev acc (c # cs) =
     (if is_digit c then scan_digits c (10 * acc + digit_value c) cs
      else if c = CHR ''_'' then (if prev = CHR ''_'' then None else scan_digits c acc cs)
      else Some (acc, prev, c # cs))"

definition py_int :: "string \<Rightarrow> exn + int" where
  "py_int s =
     (let invalid = Inl (ValueError (''invalid literal for int() with base 10: '' @ py_repr s));
          t = dropWhile int_space s;
          (sign, u) = (case t of
                         [] \<Rightarrow> (1, t)
                       | c # cs \<Rightarrow> if c = CHR ''+'' then (1, cs)
                                   else if c = CHR ''-'' then (- 1, cs)
                                   else (1, t))
      in if take 1 u = ''_'' then invalid
         else
           (case scan_digits (CHR 0x00) 0 u of
              None \<Rightarrow> invalid
            | Some (v, prev, rest) \<Rightarrow>
                if prev = CHR ''_'' \<or> length rest = length u \<or> dropWhile int_space rest \<noteq> []
                then invalid
                else Inr (sign * v)))"

subsection \<open>\<open>split\<close>, \<open>startswith\<close>, \<open>endswith\<close>, \<open>sorted\<close>\<close>

fun split_from :: "char \<Rightarrow> string \<Rightarrow> string \<Rightarrow> string list" where
  "split_from sep cur [] = [cur]"
| "split_from sep cur (c # cs) =
     (if c = sep then cur # split_from sep [] cs else split_from sep (cur @ [c]) cs)"

definition py_split :: "string \<Rightarrow> char \<Rightarrow> string list" where
  "py_split s sep = split_from sep [] s"

definition startswith :: "string \<Rightarrow> string \<Rightarrow> bool" where
  "startswith s p = (take (length p) s = p)"

definition endswith :: "string \<Rightarrow> string \<Rightarrow> bool" where
  "endswith s p = (length p \<le> length s \<and> drop (length s - length p) s = p)"

text \<open>
  \<open>sorted(xs, key=k)\<close>: the keys are computed first, in the order of \<open>xs\<close>, so the first
  key that raises ends the call; the sort is stable.
\<close>

fun decorate :: "('a \<Rightarrow> exn + int) \<Rightarrow> 'a list \<Rightarrow> exn + (int \<times> 'a) list" where
  "decorate key [] = Inr []"
| "decorate key (x # xs) =
     (case key x of
        Inl e \<Rightarrow> Inl e
      | Inr k \<Rightarrow> (case decorate key xs of Inl e \<Rightarrow> Inl e | Inr kxs \<Rightarrow> Inr ((k, x) # kxs)))"

definition py_sorted :: "('a \<Rightarrow> exn + int) \<Rightarrow> 'a list \<Rightarrow> exn + 'a list" where
  "py_sorted key xs =
     (case decorate key xs of Inl e \<Rightarrow> Inl e | Inr kxs \<Rightarrow> Inr (map snd (sort_key fst kxs)))"

section \<open>Frame\<close>

record frame =
  name :: string
  lines :: "string list"
  height :: int
  width :: int

definition Frame :: "string \<Rightarrow> string \<Rightarrow> frame" where
  "Frame nm content =
     (let ls = splitlines content in
      \<lparr> name = nm,
        lines = ls,
        height = int (length ls),
        width = (if ls \<noteq> [] then py_max (map (\<lambda>line. int (length (strip_ansi line))) ls) else 0) \<rparr>)"

text \<open>
  \<open>get_line\<close> keeps the guard of the source. A frame is only ever built by \<open>Frame\<close> and
  never changed afterwards, so \<open>height\<close> is the length of \<open>lines\<close> and the index read
  under the guard is in range. What is proved below of arbitrary \<open>frame\<close> records is meant
  for these frames.
\<close>

definition get_line :: "frame \<Rightarrow> int \<Rightarrow> string option" where
  "get_line f y = (if 0 \<le> y \<and> y < height f then Some (lines f ! nat y) else None)"


section \<open>The terminal stream and the interrupt signal\<close>

text \<open>
  What the process does to the outside, in order: \<open>stdout.write(s)\<close>, \<open>stdout.flush()\<close>
  and \<open>time.sleep(d)\<close>. \<open>self.stdout\<close> and \<open>sys.stdout\<close> are the same stream, and the
  stream takes every write and flush: a terminal that fails is not part of this model.
\<close>

datatype event = Write string | Flush | Sleep rat

text \<open>
  The world holds the events so far and the interrupt signal: \<open>sigint = Some k\<close> means
  that the interrupt arrives once \<open>k\<close> more writes, flushes and sleeps have completed, so
  the operation after them raises \<open>KeyboardInterrupt\<close> instead of running; \<open>None\<close> means
  that no interrupt is pending. The signal is delivered once.
\<close>

record world =
  out :: "event list"
  sigint :: "nat option"

type_synonym 'a io = "world \<Rightarrow> (exn + 'a) \<times> world"

definition perform :: "event \<Rightarrow> unit io" where
  "perform e w =
     (case sigint w of
        None \<Rightarrow> (Inr (), w\<lparr>out := out w @ [e]\<rparr>)
      | Some 0 \<Rightarrow> (Inl KeyboardInterrupt, w\<lparr>sigint := None\<rparr>)
      | Some (Suc k) \<Rightarrow> (Inr (), w\<lparr>out := out w @ [e], sigint := Some k\<rparr>))"

definition raise :: "exn \<Rightarrow> unit io" where
  "raise e w = (Inl e, w)"

definition stdout_write :: "string \<Rightarrow> unit io" where
  "stdout_write s = perform (Write s)"

definition stdout_flush :: "unit io" where
  "stdout_flush = perform Flush"

text \<open>\<open>time.sleep\<close> refuses a negative length.\<close>

definition sleep :: "rat \<Rightarrow> unit io" where
  "sleep d =
     (if d < 0 then raise (ValueError ''sleep length must be non-negative'')
      else perform (Sleep d))"

text \<open>Statements in sequence: an exception ends the sequence and keeps the world it left.\<close>

definition skip :: "unit io" where
  "skip w = (Inr (), w)"

definition then_do :: "unit io \<Rightarrow> unit io \<Rightarrow> unit io" where
  "then_do m1 m2 w = (case m1 w of (Inl e, w') \<Rightarrow> (Inl e, w') | (Inr u, w') \<Rightarrow> m2 w')"

primrec block :: "unit io list \<Rightarrow> unit io" where
  "block [] = skip"
| "block (m # ms) = then_do m (block ms)"

primrec for_each :: "('a \<Rightarrow> unit io) \<Rightarrow> 'a list \<Rightarrow> unit io" where
  "for_each body [] = skip"
| "for_each body (x # xs) = then_do (body x) (for_each body xs)"

section \<open>DifferentialRenderer\<close>

record renderer =
  frame_delay :: rat
  frames :: "frame list"
  hide_cursor :: string
  show_cursor :: string
  clear :: string
  erase_line :: string
  enable_sync_rendering :: string
  disable_sync_rendering :: string

definition DifferentialRenderer :: "rat \<Rightarrow> renderer" where
  "DifferentialRenderer delay =
     \<lparr> frame_delay = delay,
       frames = [],
       hide_cursor = ESC # ''[?25l'',
       show_cursor = ESC # ''[?25h'',
       clear = (ESC # ''[2J'') @ (ESC # ''[H''),
       erase_line = ESC # ''[2K'',
       enable_sync_rendering = ESC # ''[?2026h'',
       disable_sync_rendering = ESC # ''[?2026l'' \<rparr>"

definition move_cursor :: "int \<Rightarrow> int \<Rightarrow> string" where
  "move_cursor x y = (ESC # ''['') @ str_int (y + 1) @ '';'' @ str_int (x + 1) @ ''H''"

definition enable_synchronized_mode :: "renderer \<Rightarrow> unit io" where
  "enable_synchronized_mode r = block [stdout_write (enable_sync_rendering r), stdout_flush]"

definition disable_synchronized_mode :: "renderer \<Rightarrow> unit io" where
  "disable_synchronized_mode r = block [stdout_write (disable_sync_rendering r), stdout_flush]"

definition find_line_differences :: "string option \<Rightarrow> string option \<Rightarrow> (int \<times> string) list" where
  "find_line_differences old_line new_line =
     (if old_line = None \<and> new_line = None then []
      else if old_line = None then [(0, the new_line)]
      else if new_line = None then [(0, '''')]
      else if old_line \<noteq> new_line then [(0, the new_line)]
      else [])"

definition render_frame :: "renderer \<Rightarrow> frame \<Rightarrow> unit io" where
  "render_frame r f =
     block
       [stdout_write (clear r),
        for_each (\<lambda>(y, line). block [stdout_write (move_cursor 0 y), stdout_write line])
          (py_enumerate (lines f)),
        stdout_flush]"

text \<open>The bodies of the two loops of \<open>render_frame_difference\<close>, then the method.\<close>

definition render_row :: "renderer \<Rightarrow> frame \<Rightarrow> frame \<Rightarrow> int \<Rightarrow> unit io" where
  "render_row r current next_frame y =
     (let current_line = get_line current y;
          next_line = get_line next_frame y;
          differences = find_line_differences current_line next_line
      in if differences \<noteq> [] then
           block
             [stdout_write (move_cursor 0 y),
              stdout_write (erase_line r),
              (case next_line of Some l \<Rightarrow> stdout_write l | None \<Rightarrow> skip)]
         else skip)"

definition clear_row :: "renderer \<Rightarrow> int \<Rightarrow> unit io" where
  "clear_row r y = block [stdout_write (move_cursor 0 y), stdout_write (erase_line r)]"

definition render_frame_difference :: "renderer \<Rightarrow> frame \<Rightarrow> frame \<Rightarrow> unit io" where
  "render_frame_difference r current next_frame =
     (let max_height = max (height current) (height next_frame) in
      block
        [for_each (render_row r current next_frame) (py_range 0 max_height),
         (if height next_frame < height current
          then for_each (clear_row r) (py_range (height next_frame) (height current))
          else skip),
         stdout_flush])"

subsection \<open>\<open>run_animation\<close>\<close>

text \<open>
  \<open>itertools.cycle\<close> over a list: the saved items and the position of the next one. An
  empty list ends the iteration at once.
\<close>

definition itertools_cycle :: "'a list \<Rightarrow> 'a list \<times> nat" where
  "itertools_cycle xs = (xs, 0)"

definition cycle_next :: "'a list \<times> nat \<Rightarrow> ('a \<times> ('a list \<times> nat)) option" where
  "cycle_next it =
     (case it of (xs, i) \<Rightarrow>
        if xs = [] then None
        else Some (xs ! i, (xs, if i + 1 < length xs then i + 1 else 0)))"

text \<open>
  The \<open>for\<close> loop over the cycle never ends by itself, so its result is an \<open>option\<close>:
  \<open>None\<close> is a loop that never returns.
\<close>

partial_function (option) animation_loop ::
  "renderer \<Rightarrow> frame list \<times> nat \<Rightarrow> frame \<Rightarrow> world \<Rightarrow> ((exn + unit) \<times> world) option" where
  "animation_loop r it current_frame w =
     (case cycle_next it of
        None \<Rightarrow> Some (Inr (), w)
      | Some (next_frame, it') \<Rightarrow>
          (case sleep (frame_delay r) w of
             (Inl e, w1) \<Rightarrow> Some (Inl e, w1)
           | (Inr u, w1) \<Rightarrow>
               (case render_frame_difference r current_frame next_frame w1 of
                  (Inl e, w2) \<Rightarrow> Some (Inl e, w2)
                | (Inr u, w2) \<Rightarrow> animation_loop r it' next_frame w2)))"

declare animation_loop.simps [code]

text \<open>
  The \<open>try\<close> suite, the \<open>finally\<close> suite, and the method: \<open>except KeyboardInterrupt: pass\<close>
  ends the interrupt, any other exception is raised again after the \<open>finally\<close> suite, and
  an exception of the \<open>finally\<close> suite itself replaces both.
\<close>

definition run_animation_try :: "renderer \<Rightarrow> world \<Rightarrow> ((exn + unit) \<times> world) option" where
  "run_animation_try r w =
     (case block
             [stdout_write (hide_cursor r),
              enable_synchronized_mode r,
              render_frame r (frames r ! 0)] w of
        (Inl e, w1) \<Rightarrow> Some (Inl e, w1)
      | (Inr u, w1) \<Rightarrow>
          animation_loop r (itertools_cycle (drop 1 (frames r) @ [frames r ! 0])) (frames r ! 0) w1)"

definition run_animation_finally :: "renderer \<Rightarrow> unit io" where
  "run_animation_finally r =
     block
       [stdout_write (show_cursor r),
        stdout_write (clear r),
        disable_synchronized_mode r,
        stdout_write ''Animation stopped.\<newline>'',
        stdout_flush]"

definition run_animation :: "renderer \<Rightarrow> world \<Rightarrow> ((exn + unit) \<times> world) option" where
  "run_animation r w =
     (if frames r = [] then Some (Inr (), w)
      else
        (case run_animation_try r w of
           None \<Rightarrow> None
         | Some (tried, w1) \<Rightarrow>
             (case run_animation_finally r w1 of
                (Inl e, w2) \<Rightarrow> Some (Inl e, w2)
              | (Inr u, w2) \<Rightarrow>
                  (case tried of
                     Inl KeyboardInterrupt \<Rightarrow> Some (Inr (), w2)
                   | Inl e \<Rightarrow> Some (Inl e, w2)
                   | Inr u \<Rightarrow> Some (Inr (), w2)))))"

section \<open>Loading frames\<close>

text \<open>
  The frame directory as the code sees it: what \<open>os.listdir\<close> does (it raises \<open>OSError\<close>
  or returns the names, in no particular order), and what opening and reading a file of
  that directory does (\<open>OSError\<close> from \<open>open\<close>, \<open>UnicodeDecodeError\<close> from \<open>read\<close>, or the
  decoded text). \<open>folder_path\<close> names this directory in both calls.
\<close>

datatype read_result = Text string | OpenError string | DecodeError string

record directory =
  listdir :: "string + string list"
  read_text :: "string \<Rightarrow> read_result"

definition frame_index :: "string \<Rightarrow> exn + int" where
  "frame_index f_name =
     (let part = last (py_split f_name (CHR ''_'')) in py_int (take (length part - 4) part))"

definition is_frame_file :: "string \<Rightarrow> bool" where
  "is_frame_file f = (startswith f ''frame_cleaned_'' \<and> endswith f ''.txt'')"

fun read_frames :: "directory \<Rightarrow> string list \<Rightarrow> renderer \<Rightarrow> (exn + unit) \<times> renderer" where
  "read_frames d [] r = (Inr (), r)"
| "read_frames d (frame_path # rest) r =
     (case read_text d frame_path of
        OpenError m \<Rightarrow> (Inl (OSError m), r)
      | DecodeError m \<Rightarrow> (Inl (UnicodeDecodeError m), r)
      | Text content \<Rightarrow> read_frames d rest (r\<lparr>frames := frames r @ [Frame frame_path content]\<rparr>))"

definition load_frames :: "renderer \<Rightarrow> directory \<Rightarrow> (exn + int) \<times> renderer" where
  "load_frames r d =
     (case listdir d of
        Inl m \<Rightarrow> (Inl (OSError m), r)
      | Inr names \<Rightarrow>
          (case py_sorted frame_index (filter is_frame_file names) of
             Inl e \<Rightarrow> (Inl e, r)
           | Inr frame_files \<Rightarrow>
               if frame_files = [] then (Inl (ValueError ''No frame files found''), r)
               else
                 (case read_frames d frame_files r of
                    (Inl e, r') \<Rightarrow> (Inl e, r')
                  | (Inr u, r') \<Rightarrow> (Inr (int (length (frames r'))), r'))))"

section \<open>main\<close>

text \<open>\<open>print(s)\<close> writes \<open>s\<close> and then the line end.\<close>

definition print :: "string \<Rightarrow> unit io" where
  "print s = block [stdout_write s, stdout_write ''\<newline>'']"

definition str_exn :: "exn \<Rightarrow> string" where
  "str_exn e =
     (case e of
        KeyboardInterrupt \<Rightarrow> ''''
      | ValueError m \<Rightarrow> m
      | OSError m \<Rightarrow> m
      | UnicodeDecodeError m \<Rightarrow> m)"

text \<open>\<open>except Exception\<close> catches every exception of this file but \<open>KeyboardInterrupt\<close>.\<close>

definition main_except :: "exn \<Rightarrow> world \<Rightarrow> ((exn + unit) \<times> world) option" where
  "main_except e w =
     (if e = KeyboardInterrupt then Some (Inl e, w)
      else Some (print (''Error: '' @ str_exn e) w))"

definition main :: "directory \<Rightarrow> world \<Rightarrow> ((exn + unit) \<times> world) option" where
  "main d w =
     (let renderer = DifferentialRenderer (1 / 50) in
      case load_frames renderer d of
        (Inl e, renderer') \<Rightarrow> main_except e w
      | (Inr frame_count, renderer') \<Rightarrow>
          (case block
                  [print (''Loaded '' @ str_int frame_count @ '' frames. Starting animation...''),
                   sleep 1] w of
             (Inl e, w1) \<Rightarrow> main_except e w1
           | (Inr u, w1) \<Rightarrow>
               (case run_animation renderer' w1 of
                  None \<Rightarrow> None
                | Some (Inl e, w2) \<Rightarrow> main_except e w2
                | Some (Inr u, w2) \<Rightarrow> Some (Inr (), w2))))"

section \<open>Observing a run\<close>

text \<open>
  \<open>emit es\<close> performs the events of \<open>es\<close> in order; \<open>events_of m\<close> is what an action
  sends to the terminal when no interrupt arrives. \<open>cycle_nth it i\<close> is the item the
  \<open>for\<close> loop takes from the iterator \<open>it\<close> in its iteration \<open>i\<close> (counted from 0).
\<close>

primrec emit :: "event list \<Rightarrow> unit io" where
  "emit [] = skip"
| "emit (e # es) = then_do (perform e) (emit es)"

definition events_of :: "unit io \<Rightarrow> event list" where
  "events_of m = out (snd (m \<lparr>out = [], sigint = None\<rparr>))"

fun cycle_nth :: "'a list \<times> nat \<Rightarrow> nat \<Rightarrow> 'a option" where
  "cycle_nth it 0 = map_option fst (cycle_next it)"
| "cycle_nth it (Suc i) = (case cycle_next it of None \<Rightarrow> None | Some (x, it') \<Rightarrow> cycle_nth it' i)"

definition row_events :: "renderer \<Rightarrow> frame \<Rightarrow> frame \<Rightarrow> int \<Rightarrow> event list" where
  "row_events r current next_frame y =
     (if find_line_differences (get_line current y) (get_line next_frame y) \<noteq> []
      then [Write (move_cursor 0 y), Write (erase_line r)]
           @ (case get_line next_frame y of Some l \<Rightarrow> [Write l] | None \<Rightarrow> [])
      else [])"

definition clear_events :: "renderer \<Rightarrow> int \<Rightarrow> event list" where
  "clear_events r y = [Write (move_cursor 0 y), Write (erase_line r)]"

definition setup_events :: "renderer \<Rightarrow> event list" where
  "setup_events r =
     [Write (hide_cursor r), Write (enable_sync_rendering r), Flush]
     @ Write (clear r)
       # concat (map (\<lambda>(y, line). [Write (move_cursor 0 y), Write line])
                   (py_enumerate (lines (frames r ! 0))))
     @ [Flush]"

definition teardown_events :: "renderer \<Rightarrow> event list" where
  "teardown_events r =
     [Write (show_cursor r), Write (clear r), Write (disable_sync_rendering r), Flush,
      Write ''Animation stopped.\<newline>'', Flush]"

text \<open>
  For a frame file name, the index the sort key gives it and the text read from it, where
  there are any; a directory whose files can all be read, for the examples.
\<close>

definition index_of :: "string \<Rightarrow> int" where
  "index_of f = (case frame_index f of Inr i \<Rightarrow> i | Inl e \<Rightarrow> 0)"

definition text_of :: "directory \<Rightarrow> string \<Rightarrow> string" where
  "text_of d f = (case read_text d f of Text c \<Rightarrow> c | OpenError m \<Rightarrow> '''' | DecodeError m \<Rightarrow> '''')"

definition example_dir :: "string list \<Rightarrow> directory" where
  "example_dir names = \<lparr>listdir = Inr names, read_text = (\<lambda>f. Text (''+'' @ f))\<rparr>"


subsection \<open>Example values\<close>

definition frame_A :: frame where
  "frame_A = Frame ''frame_cleaned_0.txt'' ''A''"

definition frame_B :: frame where
  "frame_B = Frame ''frame_cleaned_1.txt'' ''B''"

definition frame_C :: frame where
  "frame_C = Frame ''frame_cleaned_2.txt'' ''C''"

definition example_renderer :: renderer where
  "example_renderer = (DifferentialRenderer (1 / 50))\<lparr>frames := [frame_A, frame_B, frame_C]\<rparr>"


section \<open>Lemmas\<close>

subsection \<open>Sequences of events\<close>

lemma then_do_skip_left: "then_do skip m = m"
  by (rule ext) (simp add: then_do_def skip_def)

lemma then_do_skip_right: "then_do m skip = m"
  by (rule ext) (simp add: then_do_def skip_def split: prod.splits sum.splits)

lemma then_do_assoc: "then_do (then_do a b) c = then_do a (then_do b c)"
  by (rule ext) (simp add: then_do_def split: prod.splits sum.splits)

lemma perform_emit: "perform e = emit [e]"
  by (simp add: then_do_skip_right)

lemma then_do_emit: "then_do (emit a) (emit b) = emit (a @ b)"
  by (induction a) (simp_all add: then_do_skip_left then_do_assoc)

lemma for_each_emit:
  assumes "\<And>x. x \<in> set xs \<Longrightarrow> body x = emit (g x)"
  shows "for_each body xs = emit (concat (map g xs))"
  using assms
proof (induction xs)
  case Nil
  then show ?case by simp
next
  case (Cons x xs)
  have "for_each body (x # xs) = then_do (emit (g x)) (emit (concat (map g xs)))"
    using Cons by simp
  then show ?case by (simp add: then_do_emit)
qed

lemma emit_uninterrupted:
  "emit es \<lparr>out = tr, sigint = None\<rparr> = (Inr (), \<lparr>out = tr @ es, sigint = None\<rparr>)"
proof (induction es arbitrary: tr)
  case Nil
  then show ?case by (simp add: skip_def)
next
  case (Cons e es)
  then show ?case by (simp add: then_do_def perform_def)
qed

lemma emit_enough:
  "length es \<le> k \<Longrightarrow>
   emit es \<lparr>out = tr, sigint = Some k\<rparr> = (Inr (), \<lparr>out = tr @ es, sigint = Some (k - length es)\<rparr>)"
proof (induction es arbitrary: tr k)
  case Nil
  then show ?case by (simp add: skip_def)
next
  case (Cons e es)
  then obtain k' where k: "k = Suc k'" and le: "length es \<le> k'"
    by (cases k) auto
  have "perform e \<lparr>out = tr, sigint = Some k\<rparr> = (Inr (), \<lparr>out = tr @ [e], sigint = Some k'\<rparr>)"
    by (simp add: perform_def k)
  then show ?case using Cons.IH [OF le, of "tr @ [e]"] k
    by (simp add: then_do_def)
qed

lemma emit_interrupted:
  "k < length es \<Longrightarrow>
   emit es \<lparr>out = tr, sigint = Some k\<rparr>
     = (Inl KeyboardInterrupt, \<lparr>out = tr @ take k es, sigint = None\<rparr>)"
proof (induction es arbitrary: tr k)
  case Nil
  then show ?case by simp
next
  case (Cons e es)
  show ?case
  proof (cases k)
    case 0
    then show ?thesis by (simp add: then_do_def perform_def)
  next
    case (Suc k')
    with Cons.prems have lt: "k' < length es" by simp
    have "perform e \<lparr>out = tr, sigint = Some k\<rparr> = (Inr (), \<lparr>out = tr @ [e], sigint = Some k'\<rparr>)"
      by (simp add: perform_def Suc)
    then show ?thesis using Cons.IH [OF lt, of "tr @ [e]"] Suc
      by (simp add: then_do_def)
  qed
qed

lemma events_of_emit: "events_of (emit es) = es"
  by (simp add: events_of_def emit_uninterrupted)

lemma sleep_emit: "0 \<le> d \<Longrightarrow> sleep d = emit [Sleep d]"
  by (simp add: sleep_def then_do_skip_right)

lemma stdout_write_emit: "stdout_write s = emit [Write s]"
  by (simp add: stdout_write_def then_do_skip_right)

lemma stdout_flush_emit: "stdout_flush = emit [Flush]"
  by (simp add: stdout_flush_def then_do_skip_right)

subsection \<open>The renderer's methods as event sequences\<close>

lemma render_row_emit: "render_row r current next_frame y = emit (row_events r current next_frame y)"
  by (simp add: render_row_def row_events_def Let_def stdout_write_def then_do_skip_right
      split: option.splits)

lemma clear_row_emit: "clear_row r y = emit (clear_events r y)"
  by (simp add: clear_row_def clear_events_def stdout_write_def then_do_skip_right)

lemma render_frame_difference_emit:
  "render_frame_difference r current next_frame =
     emit (concat (map (row_events r current next_frame)
             (py_range 0 (max (height current) (height next_frame))))
           @ (if height next_frame < height current
              then concat (map (clear_events r) (py_range (height next_frame) (height current)))
              else [])
           @ [Flush])"
proof -
  have a: "for_each (render_row r current next_frame) xs = emit (concat (map (row_events r current next_frame) xs))" for xs
    by (rule for_each_emit) (rule render_row_emit)
  have b: "for_each (clear_row r) xs = emit (concat (map (clear_events r) xs))" for xs
    by (rule for_each_emit) (rule clear_row_emit)
  have c: "skip = emit []" by simp
  have d: "stdout_flush = emit [Flush]" by (simp add: stdout_flush_def then_do_skip_right)
  show ?thesis
    unfolding render_frame_difference_def Let_def block.simps a b d then_do_skip_right
    by (simp add: then_do_emit c del: emit.simps)
qed

lemma render_frame_emit:
  "render_frame r f =
     emit (Write (clear r) # concat (map (\<lambda>(y, line). [Write (move_cursor 0 y), Write line]) (py_enumerate (lines f))) @ [Flush])"
proof -
  have a: "for_each (\<lambda>(y, line). block [stdout_write (move_cursor 0 y), stdout_write line]) xs
     = emit (concat (map (\<lambda>(y, line). [Write (move_cursor 0 y), Write line]) xs))" for xs
    by (rule for_each_emit) (auto simp: stdout_write_def then_do_skip_right)
  have d: "stdout_flush = emit [Flush]" by (simp add: stdout_flush_def then_do_skip_right)
  have e: "stdout_write s = emit [Write s]" for s by (simp add: stdout_write_def then_do_skip_right)
  show ?thesis
    unfolding render_frame_def a
    unfolding block.simps d e then_do_skip_right
    by (simp add: then_do_emit del: emit.simps)
qed

lemma run_animation_finally_emit: "run_animation_finally r = emit (teardown_events r)"
  unfolding run_animation_finally_def disable_synchronized_mode_def block.simps
    stdout_write_emit stdout_flush_emit then_do_skip_right teardown_events_def
  by (simp add: then_do_emit del: emit.simps)

lemma run_animation_setup_emit:
  "block [stdout_write (hide_cursor r), enable_synchronized_mode r, render_frame r (frames r ! 0)]
     = emit (setup_events r)"
  unfolding enable_synchronized_mode_def block.simps render_frame_emit
    stdout_write_emit stdout_flush_emit then_do_skip_right setup_events_def
  by (simp add: then_do_emit del: emit.simps)

lemma row_events_same: "row_events r f f y = []"
  by (simp add: row_events_def find_line_differences_def)

lemma concat_row_events_same: "concat (map (row_events r f f) ys) = []"
  by (induction ys) (simp_all add: row_events_same)

lemma py_range_empty: "b \<le> a \<Longrightarrow> py_range a b = []"
  by (simp add: py_range_def)

subsection \<open>Frames\<close>

lemma fold_max_ge: "(a::int) \<le> fold max xs a"
proof (induction xs arbitrary: a)
  case Nil
  then show ?case by simp
next
  case (Cons x xs)
  have "a \<le> max x a" by simp
  also have "\<dots> \<le> fold max xs (max x a)" by (rule Cons.IH)
  finally show ?case by simp
qed

lemma py_max_nonneg:
  assumes "xs \<noteq> []" and "0 \<le> hd xs"
  shows "0 \<le> py_max xs"
  using assms(2) fold_max_ge [of "hd xs" "tl xs"] by (simp add: py_max_def)

lemma Frame_fields:
  "name (Frame nm content) = nm"
  "lines (Frame nm content) = splitlines content"
  "height (Frame nm content) = int (length (splitlines content))"
  by (simp_all add: Frame_def Let_def)

lemma Frame_width_nonneg: "0 \<le> width (Frame nm content)"
proof (cases "splitlines content")
  case Nil
  then show ?thesis by (simp add: Frame_def Let_def)
next
  case (Cons l ls)
  then show ?thesis
    by (simp add: Frame_def Let_def py_max_nonneg)
qed

subsection \<open>The animation loop\<close>

lemma animation_loop_interrupted:
  assumes "xs \<noteq> []" and d: "0 \<le> frame_delay r"
  shows "\<exists>tr'. animation_loop r (xs, j) cur \<lparr>out = tr, sigint = Some k\<rparr>
           = Some (Inl KeyboardInterrupt, \<lparr>out = tr @ tr', sigint = None\<rparr>)"
proof (induction k arbitrary: tr j cur rule: less_induct)
  case (less k)
  let ?nxt = "xs ! j"
  let ?j' = "if j + 1 < length xs then j + 1 else 0"
  have nx: "cycle_next (xs, j) = Some (?nxt, (xs, ?j'))"
    using assms(1) by (simp add: cycle_next_def)
  show ?case
  proof (cases k)
    case 0
    have "sleep (frame_delay r) \<lparr>out = tr, sigint = Some k\<rparr>
            = (Inl KeyboardInterrupt, \<lparr>out = tr @ [], sigint = None\<rparr>)"
      unfolding sleep_emit [OF d] using emit_interrupted [of k "[Sleep (frame_delay r)]" tr] 0 by simp
    then have "animation_loop r (xs, j) cur \<lparr>out = tr, sigint = Some k\<rparr>
            = Some (Inl KeyboardInterrupt, \<lparr>out = tr @ [], sigint = None\<rparr>)"
      by (subst animation_loop.simps) (simp add: nx)
    then show ?thesis by blast
  next
    case (Suc k')
    let ?ev = "concat (map (row_events r cur ?nxt) (py_range 0 (max (height cur) (height ?nxt))))
           @ (if height ?nxt < height cur
              then concat (map (clear_events r) (py_range (height ?nxt) (height cur)))
              else [])
           @ [Flush]"
    have sl: "sleep (frame_delay r) \<lparr>out = tr, sigint = Some k\<rparr>
            = (Inr (), \<lparr>out = tr @ [Sleep (frame_delay r)], sigint = Some k'\<rparr>)"
      unfolding sleep_emit [OF d] using emit_enough [of "[Sleep (frame_delay r)]" k tr] Suc by simp
    have rd: "render_frame_difference r cur ?nxt = emit ?ev"
      by (rule render_frame_difference_emit)
    show ?thesis
    proof (cases "k' < length ?ev")
      case True
      have "animation_loop r (xs, j) cur \<lparr>out = tr, sigint = Some k\<rparr>
            = Some (Inl KeyboardInterrupt,
                \<lparr>out = tr @ ([Sleep (frame_delay r)] @ take k' ?ev), sigint = None\<rparr>)"
        by (subst animation_loop.simps)
          (simp add: nx sl rd emit_interrupted [OF True] del: emit.simps)
      then show ?thesis by blast
    next
      case False
      then have le: "length ?ev \<le> k'" by simp
      have lt: "k' - length ?ev < k" using Suc by simp
      obtain tr' where
        "animation_loop r (xs, ?j') ?nxt \<lparr>out = (tr @ [Sleep (frame_delay r)]) @ ?ev,
             sigint = Some (k' - length ?ev)\<rparr>
          = Some (Inl KeyboardInterrupt,
               \<lparr>out = ((tr @ [Sleep (frame_delay r)]) @ ?ev) @ tr', sigint = None\<rparr>)"
        using less.IH [OF lt] by blast
      then have "animation_loop r (xs, j) cur \<lparr>out = tr, sigint = Some k\<rparr>
            = Some (Inl KeyboardInterrupt,
                \<lparr>out = tr @ ([Sleep (frame_delay r)] @ ?ev @ tr'), sigint = None\<rparr>)"
        by (subst animation_loop.simps)
          (simp add: nx sl rd emit_enough [OF le] del: emit.simps)
      then show ?thesis by blast
    qed
  qed
qed

lemma run_animation_try_interrupted:
  assumes "frames r \<noteq> []" and d: "0 \<le> frame_delay r"
  shows "\<exists>tr'. run_animation_try r \<lparr>out = tr, sigint = Some k\<rparr>
           = Some (Inl KeyboardInterrupt, \<lparr>out = tr @ tr', sigint = None\<rparr>)"
proof (cases "k < length (setup_events r)")
  case True
  have "run_animation_try r \<lparr>out = tr, sigint = Some k\<rparr>
          = Some (Inl KeyboardInterrupt, \<lparr>out = tr @ take k (setup_events r), sigint = None\<rparr>)"
    unfolding run_animation_try_def run_animation_setup_emit
    by (simp add: emit_interrupted [OF True])
  then show ?thesis by blast
next
  case False
  then have le: "length (setup_events r) \<le> k" by simp
  have ne: "drop 1 (frames r) @ [frames r ! 0] \<noteq> []" by simp
  obtain tr' where
    "animation_loop r (drop 1 (frames r) @ [frames r ! 0], 0) (frames r ! 0)
        \<lparr>out = tr @ setup_events r, sigint = Some (k - length (setup_events r))\<rparr>
      = Some (Inl KeyboardInterrupt, \<lparr>out = (tr @ setup_events r) @ tr', sigint = None\<rparr>)"
    using animation_loop_interrupted [OF ne d] by blast
  then have "run_animation_try r \<lparr>out = tr, sigint = Some k\<rparr>
          = Some (Inl KeyboardInterrupt, \<lparr>out = tr @ (setup_events r @ tr'), sigint = None\<rparr>)"
    unfolding run_animation_try_def run_animation_setup_emit itertools_cycle_def
    by (simp add: emit_enough [OF le])
  then show ?thesis by blast
qed

lemma cycle_nth_at:
  assumes "xs \<noteq> []" and "j < length xs"
  shows "cycle_nth (xs, j) i = Some (xs ! ((j + i) mod length xs))"
  using assms(2)
proof (induction i arbitrary: j)
  case 0
  then show ?case using assms(1) by (simp add: cycle_next_def)
next
  case (Suc i)
  let ?j' = "if j + 1 < length xs then j + 1 else 0"
  have j': "?j' < length xs" using assms(1) by auto
  have m: "(?j' + i) mod length xs = (j + Suc i) mod length xs"
  proof (cases "j + 1 < length xs")
    case True
    then show ?thesis by simp
  next
    case False
    with Suc.prems have "j + 1 = length xs" by simp
    then have "j + Suc i = length xs + i" by simp
    then have "(j + Suc i) mod length xs = i mod length xs"
      by (simp only: mod_add_self1)
    with False show ?thesis by simp
  qed
  have "cycle_nth (xs, j) (Suc i) = cycle_nth (xs, ?j') i"
    using assms(1) by (simp add: cycle_next_def)
  also have "\<dots> = Some (xs ! ((?j' + i) mod length xs))"
    by (rule Suc.IH [OF j'])
  finally show ?case by (simp only: m)
qed

lemma visiting_order_nth:
  assumes "fs \<noteq> []" and "i < length fs"
  shows "(drop 1 fs @ [fs ! 0]) ! i = fs ! (Suc i mod length fs)"
proof -
  obtain x xs where fs: "fs = x # xs" using assms(1) by (cases fs) auto
  show ?thesis
  proof (cases "i < length xs")
    case True
    then show ?thesis by (simp add: fs nth_append)
  next
    case False
    with assms(2) have "i = length xs" by (simp add: fs)
    then show ?thesis by (simp add: fs nth_append)
  qed
qed

lemma animation_loop_visits:
  fixes r :: renderer and fs :: "frame list"
  defines "n \<equiv> length fs"
  defines "visit \<equiv> \<lambda>i. Sleep (frame_delay r)
              # events_of (render_frame_difference r (fs ! (i mod n)) (fs ! (Suc i mod n)))"
  assumes ne: "fs \<noteq> []" and d: "0 \<le> frame_delay r"
  shows "animation_loop r (drop 1 fs @ [fs ! 0], j mod n) (fs ! (j mod n))
           \<lparr>out = tr, sigint = Some (length (concat (map visit [j..<j + m])))\<rparr>
         = Some (Inl KeyboardInterrupt,
                 \<lparr>out = tr @ concat (map visit [j..<j + m]), sigint = None\<rparr>)"
proof -
  define xs where "xs = drop 1 fs @ [fs ! 0]"
  have n0: "0 < n" using ne by (simp add: n_def)
  have len: "length xs = n" using ne by (cases fs) (simp_all add: n_def xs_def)
  have xne: "xs \<noteq> []" by (simp add: xs_def)
  have nx: "cycle_next (xs, j mod n) = Some (fs ! (Suc j mod n), (xs, Suc j mod n))" for j
  proof -
    have jn: "j mod n < length fs" using n0 by (simp add: n_def)
    have nth: "xs ! (j mod n) = fs ! (Suc j mod n)"
      using visiting_order_nth [OF ne jn] by (simp add: n_def xs_def mod_Suc_eq)
    have "j mod n < n" using n0 by simp
    then have pos: "(if j mod n + 1 < n then j mod n + 1 else 0) = Suc j mod n"
      by (auto simp: mod_Suc)
    show ?thesis
      unfolding cycle_next_def prod.case len nth pos using xne by simp
  qed
  have "animation_loop r (xs, j mod n) (fs ! (j mod n))
           \<lparr>out = tr, sigint = Some (length (concat (map visit [j..<j + m])))\<rparr>
         = Some (Inl KeyboardInterrupt,
                 \<lparr>out = tr @ concat (map visit [j..<j + m]), sigint = None\<rparr>)"
  proof (induction m arbitrary: j tr)
    case 0
    have "sleep (frame_delay r) \<lparr>out = tr, sigint = Some 0\<rparr>
              = (Inl KeyboardInterrupt, \<lparr>out = tr @ [], sigint = None\<rparr>)"
      unfolding sleep_emit [OF d] using emit_interrupted [of 0 "[Sleep (frame_delay r)]" tr] by simp
    then show ?case
      by (subst animation_loop.simps) (simp add: nx)
  next
    case (Suc m)
    let ?cur = "fs ! (j mod n)"
    let ?nxt = "fs ! (Suc j mod n)"
    define ev where "ev = events_of (render_frame_difference r ?cur ?nxt)"
    define rest where "rest = concat (map visit [Suc j..<Suc j + m])"
    have vs: "concat (map visit [j..<j + Suc m]) = Sleep (frame_delay r) # ev @ rest"
      by (simp add: upt_conv_Cons visit_def ev_def rest_def del: upt_Suc)
    have rd: "render_frame_difference r ?cur ?nxt = emit ev"
      unfolding ev_def render_frame_difference_emit events_of_emit ..
    have sl: "sleep (frame_delay r) \<lparr>out = tr, sigint = Some (Suc (length ev + length rest))\<rparr>
              = (Inr (), \<lparr>out = tr @ [Sleep (frame_delay r)],
                           sigint = Some (length ev + length rest)\<rparr>)"
      unfolding sleep_emit [OF d]
      using emit_enough [of "[Sleep (frame_delay r)]" "Suc (length ev + length rest)" tr] by simp
    have df: "emit ev \<lparr>out = tr @ [Sleep (frame_delay r)],
                           sigint = Some (length ev + length rest)\<rparr>
              = (Inr (), \<lparr>out = (tr @ [Sleep (frame_delay r)]) @ ev,
                           sigint = Some (length rest)\<rparr>)"
      using emit_enough [of ev "length ev + length rest" "tr @ [Sleep (frame_delay r)]"] by simp
    have ih: "animation_loop r (xs, Suc j mod n) ?nxt \<lparr>out = tr0, sigint = Some (length rest)\<rparr>
              = Some (Inl KeyboardInterrupt, \<lparr>out = tr0 @ rest, sigint = None\<rparr>)" for tr0
      unfolding rest_def by (rule Suc.IH)
    show ?case
      unfolding vs
      by (subst animation_loop.simps) (simp add: nx sl rd df ih del: emit.simps)
  qed
  then show ?thesis by (simp only: xs_def)
qed

subsection \<open>Sorting and loading\<close>

lemma decorate_ok:
  "(\<And>x. x \<in> set xs \<Longrightarrow> key x = Inr (k x)) \<Longrightarrow> decorate key xs = Inr (map (\<lambda>x. (k x, x)) xs)"
  by (induction xs) simp_all

lemma decorate_fail: "decorate key xs = Inl e \<Longrightarrow> \<exists>x \<in> set xs. key x = Inl e"
  by (induction xs) (auto split: sum.splits)

lemma insort_key_decorated:
  "insort_key fst (k x, x) (map (\<lambda>x. (k x, x)) ys) = map (\<lambda>x. (k x, x)) (insort_key k x ys)"
  by (induction ys) simp_all

lemma sort_key_decorated:
  "sort_key fst (map (\<lambda>x. (k x, x)) xs) = map (\<lambda>x. (k x, x)) (sort_key k xs)"
  by (induction xs) (simp_all add: insort_key_decorated)

lemma py_sorted_ok:
  assumes "\<And>x. x \<in> set xs \<Longrightarrow> key x = Inr (k x)"
  shows "py_sorted key xs = Inr (sort_key k xs)"
  by (simp add: py_sorted_def decorate_ok [OF assms] sort_key_decorated comp_def)

lemma py_sorted_fail: "py_sorted key xs = Inl e \<Longrightarrow> \<exists>x \<in> set xs. key x = Inl e"
  by (auto simp: py_sorted_def split: sum.splits dest: decorate_fail)

lemma py_sorted_Nil: "py_sorted key [] = Inr []"
  by (simp add: py_sorted_def)

lemma py_sorted_length: "py_sorted key xs = Inr ys \<Longrightarrow> length ys = length xs"
proof -
  assume a: "py_sorted key xs = Inr ys"
  have "decorate key zs = Inr kzs \<Longrightarrow> length kzs = length zs" for zs kzs
    by (induction zs arbitrary: kzs) (auto split: sum.splits)
  with a show ?thesis by (auto simp: py_sorted_def split: sum.splits)
qed

lemma py_int_error:
  "py_int s = Inl e \<Longrightarrow> e = ValueError (''invalid literal for int() with base 10: '' @ py_repr s)"
  by (auto simp: py_int_def Let_def split: if_splits option.splits prod.splits list.splits)

lemma frame_index_error:
  "frame_index f = Inl e \<Longrightarrow> e \<noteq> ValueError ''No frame files found''"
  by (auto simp: frame_index_def Let_def dest!: py_int_error)

lemma read_frames_error:
  "read_frames d fs r = (Inl e, r') \<Longrightarrow> (\<exists>m. e = OSError m) \<or> (\<exists>m. e = UnicodeDecodeError m)"
  by (induction fs arbitrary: r) (auto split: read_result.splits)

lemma read_frames_ok:
  "(\<And>f. f \<in> set fs \<Longrightarrow> \<exists>c. read_text d f = Text c) \<Longrightarrow>
   read_frames d fs r = (Inr (), r\<lparr>frames := frames r @ map (\<lambda>f. Frame f (text_of d f)) fs\<rparr>)"
proof (induction fs arbitrary: r)
  case Nil
  then show ?case by simp
next
  case (Cons f fs)
  obtain c where c: "read_text d f = Text c" using Cons.prems by auto
  have "read_frames d fs (r\<lparr>frames := frames r @ [Frame f c]\<rparr>)
        = (Inr (), (r\<lparr>frames := frames r @ [Frame f c]\<rparr>)
              \<lparr>frames := frames (r\<lparr>frames := frames r @ [Frame f c]\<rparr>)
                   @ map (\<lambda>f. Frame f (text_of d f)) fs\<rparr>)"
    by (rule Cons.IH) (use Cons.prems in auto)
  then show ?case by (simp add: c text_of_def)
qed

lemma read_frames_readable:
  "read_frames d fs r = (Inr u, r') \<Longrightarrow> f \<in> set fs \<Longrightarrow> \<exists>c. read_text d f = Text c"
  by (induction fs arbitrary: r) (auto split: read_result.splits)

lemma load_frames_success:
  assumes "load_frames r d = (Inr n, r1)"
  shows "\<exists>names files. listdir d = Inr names
           \<and> py_sorted frame_index (filter is_frame_file names) = Inr files
           \<and> files \<noteq> []
           \<and> (\<forall>f \<in> set files. \<exists>c. read_text d f = Text c)
           \<and> r1 = r\<lparr>frames := frames r @ map (\<lambda>f. Frame f (text_of d f)) files\<rparr>
           \<and> n = int (length (frames r1))"
proof -
  obtain names where nm: "listdir d = Inr names"
    using assms by (cases "listdir d") (auto simp: load_frames_def)
  obtain files where fl: "py_sorted frame_index (filter is_frame_file names) = Inr files"
    using assms nm by (cases "py_sorted frame_index (filter is_frame_file names)")
      (auto simp: load_frames_def)
  have ne: "files \<noteq> []"
    using assms nm fl by (auto simp: load_frames_def split: if_splits)
  have rd: "read_frames d files r = (Inr (), r1)" and n: "n = int (length (frames r1))"
    using assms nm fl ne by (auto simp: load_frames_def split: prod.splits sum.splits)
  have ok: "\<exists>c. read_text d f = Text c" if "f \<in> set files" for f
    using read_frames_readable [OF rd that] .
  have "read_frames d files r
          = (Inr (), r\<lparr>frames := frames r @ map (\<lambda>f. Frame f (text_of d f)) files\<rparr>)"
    by (rule read_frames_ok) (rule ok)
  with rd have r1: "r1 = r\<lparr>frames := frames r @ map (\<lambda>f. Frame f (text_of d f)) files\<rparr>"
    by simp
  from nm fl ne ok r1 n show ?thesis by blast
qed

lemma load_frames_run:
  assumes "listdir d = Inr names"
    and "py_sorted frame_index (filter is_frame_file names) = Inr files"
    and "files \<noteq> []"
    and "\<And>f. f \<in> set files \<Longrightarrow> \<exists>c. read_text d f = Text c"
  shows "load_frames r d
           = (Inr (int (length (frames r) + length files)),
              r\<lparr>frames := frames r @ map (\<lambda>f. Frame f (text_of d f)) files\<rparr>)"
proof -
  have "read_frames d files r
          = (Inr (), r\<lparr>frames := frames r @ map (\<lambda>f. Frame f (text_of d f)) files\<rparr>)"
    by (rule read_frames_ok) (rule assms(4))
  then show ?thesis using assms(1-3) by (simp add: load_frames_def)
qed


subsection \<open>The loop without an interrupt\<close>

lemma animation_loop_runs_forever:
  assumes "xs \<noteq> []" and "0 \<le> frame_delay r"
  shows "animation_loop r (xs, j) cur \<lparr>out = tr, sigint = None\<rparr> = None"
proof (rule ccontr)
  assume "animation_loop r (xs, j) cur \<lparr>out = tr, sigint = None\<rparr> \<noteq> None"
  then obtain res where ret: "animation_loop r (xs, j) cur \<lparr>out = tr, sigint = None\<rparr> = Some res"
    by auto
  have "\<not> (fst (xs, j) \<noteq> [] \<and> 0 \<le> frame_delay r \<and> sigint \<lparr>out = tr, sigint = None\<rparr> = None)"
  proof (rule animation_loop.raw_induct
      [where P = "\<lambda>r it cur w res. \<not> (fst it \<noteq> [] \<and> 0 \<le> frame_delay r \<and> sigint w = None)",
        OF _ ret])
    fix f r it cur w res
    assume IH: "\<And>r it cur w res. f r it cur w = Some res \<Longrightarrow>
                 \<not> (fst it \<noteq> [] \<and> 0 \<le> frame_delay r \<and> sigint w = None)"
      and eq: "(case cycle_next it of
                  None \<Rightarrow> Some (Inr (), w)
                | Some (next_frame, it') \<Rightarrow>
                    (case sleep (frame_delay r) w of
                       (Inl e, w1) \<Rightarrow> Some (Inl e, w1)
                     | (Inr u, w1) \<Rightarrow>
                         (case render_frame_difference r cur next_frame w1 of
                            (Inl e, w2) \<Rightarrow> Some (Inl e, w2)
                          | (Inr u, w2) \<Rightarrow> f r it' next_frame w2))) = Some res"
    show "\<not> (fst it \<noteq> [] \<and> 0 \<le> frame_delay r \<and> sigint w = None)"
    proof
      assume a: "fst it \<noteq> [] \<and> 0 \<le> frame_delay r \<and> sigint w = None"
      obtain ys i where it: "it = (ys, i)" by (cases it)
      obtain tr0 where w: "w = \<lparr>out = tr0, sigint = None\<rparr>"
        using a by (cases w) auto
      let ?nxt = "ys ! i"
      let ?it' = "(ys, if i + 1 < length ys then i + 1 else 0)"
      define ev where "ev = events_of (render_frame_difference r cur ?nxt)"
      have rd: "render_frame_difference r cur ?nxt = emit ev"
        unfolding ev_def render_frame_difference_emit events_of_emit ..
      have nx: "cycle_next it = Some (?nxt, ?it')"
        using a by (simp add: it cycle_next_def)
      have sl: "sleep (frame_delay r) w = (Inr (), \<lparr>out = tr0 @ [Sleep (frame_delay r)], sigint = None\<rparr>)"
        using a by (simp add: sleep_emit w emit_uninterrupted del: emit.simps)
      have "f r ?it' ?nxt \<lparr>out = (tr0 @ [Sleep (frame_delay r)]) @ ev, sigint = None\<rparr> = Some res"
        using eq by (simp add: nx sl rd emit_uninterrupted del: emit.simps)
      then have "\<not> (fst ?it' \<noteq> [] \<and> 0 \<le> frame_delay r
                   \<and> sigint \<lparr>out = (tr0 @ [Sleep (frame_delay r)]) @ ev, sigint = None\<rparr> = None)"
        by (rule IH)
      with a it show False by simp
    qed
  qed
  with assms show False by simp
qed

lemma run_animation_runs_forever:
  assumes "frames r \<noteq> []" and "0 \<le> frame_delay r"
  shows "run_animation r \<lparr>out = tr, sigint = None\<rparr> = None"
proof -
  have ne: "drop 1 (frames r) @ [frames r ! 0] \<noteq> []" by simp
  have "run_animation_try r \<lparr>out = tr, sigint = None\<rparr> = None"
    unfolding run_animation_try_def run_animation_setup_emit itertools_cycle_def
    using animation_loop_runs_forever [OF ne assms(2), of 0 "frames r ! 0" "tr @ setup_events r"]
    by (simp add: emit_uninterrupted)
  then show ?thesis using assms(1) by (simp add: run_animation_def)
qed

section \<open>Properties\<close>

text \<open>
  C1. For every pair of frames (current, next), \<open>render_frame_difference\<close> runs \<open>y\<close> over
  \<open>0 .. max(current.height, next.height) - 1\<close>; for each \<open>y\<close> where the diff rule reports a
  change it moves the cursor to \<open>(0, y)\<close>, erases the row and writes the row of \<open>next\<close> if
  \<open>next\<close> has a row at \<open>y\<close> (erase only, if it has none); after this loop, if
  \<open>next.height < current.height\<close>, it erases every row from \<open>next.height\<close> to
  \<open>current.height - 1\<close>; and it flushes the output exactly once, at the end.
\<close>

theorem render_frame_difference_trace:
  fixes r :: renderer and n1 c1 n2 c2 :: string and tr :: "event list"
  defines "current \<equiv> Frame n1 c1" and "next_frame \<equiv> Frame n2 c2"
  defines "rows \<equiv>
     concat (map (\<lambda>y. if find_line_differences (get_line current y) (get_line next_frame y) \<noteq> []
                       then [Write (move_cursor 0 y), Write (erase_line r)]
                            @ (case get_line next_frame y of Some l \<Rightarrow> [Write l] | None \<Rightarrow> [])
                       else [])
               [0..max (height current) (height next_frame) - 1])"
  defines "trailing \<equiv>
     (if height next_frame < height current
      then concat (map (\<lambda>y. [Write (move_cursor 0 y), Write (erase_line r)])
                    [height next_frame..height current - 1])
      else [])"
  shows "render_frame_difference r current next_frame \<lparr>out = tr, sigint = None\<rparr>
           = (Inr (), \<lparr>out = tr @ rows @ trailing @ [Flush], sigint = None\<rparr>)
         \<and> Flush \<notin> set (rows @ trailing)"
proof -
  have r: "rows = concat (map (row_events r current next_frame)
             (py_range 0 (max (height current) (height next_frame))))"
    unfolding rows_def py_range_def row_events_def ..
  have t: "trailing = (if height next_frame < height current
              then concat (map (clear_events r) (py_range (height next_frame) (height current)))
              else [])"
    unfolding trailing_def py_range_def clear_events_def ..
  have 1: "render_frame_difference r current next_frame \<lparr>out = tr, sigint = None\<rparr>
           = (Inr (), \<lparr>out = tr @ rows @ trailing @ [Flush], sigint = None\<rparr>)"
    unfolding r t render_frame_difference_emit emit_uninterrupted by simp
  have 2: "Flush \<notin> set rows"
    by (auto simp: r row_events_def split: if_splits option.splits)
  have 3: "Flush \<notin> set trailing"
    by (auto simp: t clear_events_def split: if_splits)
  from 1 2 3 show ?thesis by simp
qed

theorem render_frame_difference_trace_witness:
  "render_frame_difference (DifferentialRenderer (1 / 50))
       (Frame ''frame_cleaned_1.txt'' ''x\<newline>y'') (Frame ''frame_cleaned_2.txt'' ''z'')
       \<lparr>out = [], sigint = None\<rparr>
     = (Inr (),
        \<lparr>out = [Write (ESC # ''[1;1H''), Write (ESC # ''[2K''), Write ''z'',
                Write (ESC # ''[2;1H''), Write (ESC # ''[2K''),
                Write (ESC # ''[2;1H''), Write (ESC # ''[2K''),
                Flush],
          sigint = None\<rparr>)"
proof -
  have l1: "splitlines ''x\<newline>y'' = [''x'', ''y'']"
    by (simp add: splitlines_def is_linebreak_def)
  have l2: "splitlines ''z'' = [''z'']"
    by (simp add: splitlines_def is_linebreak_def)
  have m0: "move_cursor 0 0 = ESC # ''[1;1H''"
    by (simp add: move_cursor_def str_int_def str_nat.simps digit_char_def)
  have m1: "move_cursor 0 1 = ESC # ''[2;1H''"
    by (simp add: move_cursor_def str_int_def str_nat.simps digit_char_def)
  have u: "[0..(1::int)] = [0, 1]" "[1..(1::int)] = [1]"
    by (simp_all add: upto.simps)
  show ?thesis
    using render_frame_difference_trace
      [of "DifferentialRenderer (1 / 50)" "''frame_cleaned_1.txt''" "''x\<newline>y''"
          "''frame_cleaned_2.txt''" "''z''" "[]"]
    by (simp add: Frame_fields l1 l2 get_line_def find_line_differences_def u m0 m1
        DifferentialRenderer_def)
qed

text \<open>
  C2. For every pair (old row, new row), each a row string or "no row" (\<open>None\<close>):
  \<open>find_line_differences\<close> reports no change when both are "no row" or both are the
  same string, and otherwise exactly one change, whose content is the new row when there
  is one and the empty string when the new row is "no row".
\<close>

theorem find_line_differences_spec:
  "find_line_differences old_row new_row =
     (if old_row = new_row then []
      else [(0, case new_row of Some n \<Rightarrow> n | None \<Rightarrow> '''')])"
  by (cases old_row; cases new_row) (simp_all add: find_line_differences_def)

theorem find_line_differences_spec_witness:
  "find_line_differences (Some ''ab'') (Some ''ab'') = []
   \<and> find_line_differences None None = []
   \<and> find_line_differences (Some ''ab'') (Some ''ac'') = [(0, ''ac'')]
   \<and> find_line_differences None (Some '''') = [(0, '''')]
   \<and> find_line_differences (Some ''ab'') None = [(0, '''')]"
  using find_line_differences_spec [of "Some ''ab''" "Some ''ab''"]
    find_line_differences_spec [of None None]
    find_line_differences_spec [of "Some ''ab''" "Some ''ac''"]
    find_line_differences_spec [of None "Some ''''"]
    find_line_differences_spec [of "Some ''ab''" None]
  by simp

text \<open>
  C3. For every non-empty frame sequence of length \<open>n\<close> (and a frame delay that
  \<open>time.sleep\<close> accepts), after the full render of \<open>frames[0]\<close> the frame that iteration \<open>i\<close>
  of the loop takes from the cycle is \<open>frames[(i + 1) mod n]\<close>. A run that the interrupt
  stops at the sleep opening iteration \<open>m\<close> has, between the full render and the teardown,
  slept and rendered \<open>frames[(i + 1) mod n]\<close> against \<open>frames[i mod n]\<close> for
  \<open>i = 0, ..., m - 1\<close>, in this order; and without an interrupt the loop never returns.
\<close>

theorem run_animation_cyclic_order:
  fixes r :: renderer
  defines "n \<equiv> length (frames r)"
  defines "visit \<equiv> \<lambda>i. Sleep (frame_delay r)
              # events_of (render_frame_difference r (frames r ! (i mod n))
                                                      (frames r ! ((i + 1) mod n)))"
  defines "setup \<equiv> events_of (block [stdout_write (hide_cursor r),
                                       enable_synchronized_mode r,
                                       render_frame r (frames r ! 0)])"
  assumes ne: "frames r \<noteq> []" and d: "0 \<le> frame_delay r"
  shows "cycle_nth (itertools_cycle (drop 1 (frames r) @ [frames r ! 0])) i
           = Some (frames r ! ((i + 1) mod n))
         \<and> run_animation r
             \<lparr>out = tr, sigint = Some (length setup + length (concat (map visit [0..<m])))\<rparr>
           = Some (Inr (),
               \<lparr>out = tr @ setup @ concat (map visit [0..<m])
                    @ [Write (show_cursor r), Write (clear r), Write (disable_sync_rendering r),
                       Flush, Write ''Animation stopped.\<newline>'', Flush],
                 sigint = None\<rparr>)
         \<and> run_animation r \<lparr>out = tr, sigint = None\<rparr> = None"
proof -
  let ?xs = "drop 1 (frames r) @ [frames r ! 0]"
  have len: "length ?xs = n" using ne by (cases "frames r") (simp_all add: n_def)
  have n0: "0 < n" using ne by (simp add: n_def)
  have "cycle_nth (?xs, 0) i = Some (?xs ! ((0 + i) mod length ?xs))"
    by (rule cycle_nth_at) (use n0 len in simp_all)
  also have "?xs ! ((0 + i) mod length ?xs) = frames r ! (Suc (i mod n) mod n)"
    unfolding len using visiting_order_nth [OF ne, of "i mod n"] n0 by (simp add: n_def)
  finally have 1: "cycle_nth (itertools_cycle ?xs) i = Some (frames r ! ((i + 1) mod n))"
    by (simp add: itertools_cycle_def mod_Suc_eq)
  have st: "setup = setup_events r"
    unfolding setup_def run_animation_setup_emit events_of_emit ..
  have vs: "visit = (\<lambda>i. Sleep (frame_delay r)
              # events_of (render_frame_difference r (frames r ! (i mod length (frames r)))
                                                      (frames r ! (Suc i mod length (frames r)))))"
    by (simp add: visit_def n_def)
  define trace where "trace = concat (map visit [0..<m])"
  have lp: "animation_loop r (?xs, 0) (frames r ! 0)
              \<lparr>out = tr @ setup_events r, sigint = Some (length trace)\<rparr>
            = Some (Inl KeyboardInterrupt, \<lparr>out = (tr @ setup_events r) @ trace, sigint = None\<rparr>)"
    using animation_loop_visits [OF ne d, of 0 "tr @ setup_events r" m]
    unfolding trace_def vs by simp
  have tr: "run_animation_try r \<lparr>out = tr, sigint = Some (length setup + length trace)\<rparr>
            = Some (Inl KeyboardInterrupt, \<lparr>out = (tr @ setup_events r) @ trace, sigint = None\<rparr>)"
    unfolding run_animation_try_def run_animation_setup_emit itertools_cycle_def st
    using emit_enough [of "setup_events r" "length (setup_events r) + length trace" tr] lp
    by simp
  have 2: "run_animation r \<lparr>out = tr, sigint = Some (length setup + length trace)\<rparr>
           = Some (Inr (), \<lparr>out = tr @ setup @ trace @ teardown_events r, sigint = None\<rparr>)"
    unfolding run_animation_def run_animation_finally_emit tr
    using ne by (simp add: emit_uninterrupted st)
  have 3: "run_animation r \<lparr>out = tr, sigint = None\<rparr> = None"
    by (rule run_animation_runs_forever [OF ne d])
  from 1 2 3 show ?thesis unfolding trace_def teardown_events_def by simp
qed

theorem run_animation_cyclic_order_witness:
  "frames example_renderer = [frame_A, frame_B, frame_C]
   \<and> map (cycle_nth (itertools_cycle
                 (drop 1 (frames example_renderer) @ [frames example_renderer ! 0])))
         [0, 1, 2, 3, 4, 5]
       = [Some frame_B, Some frame_C, Some frame_A, Some frame_B, Some frame_C, Some frame_A]
   \<and> run_animation example_renderer \<lparr>out = [], sigint = None\<rparr> = None"
proof -
  have f: "frames example_renderer = [frame_A, frame_B, frame_C]"
    and d: "0 \<le> frame_delay example_renderer"
    by (simp_all add: example_renderer_def DifferentialRenderer_def)
  have ne: "frames example_renderer \<noteq> []" by (simp add: f)
  show ?thesis
    using run_animation_cyclic_order [OF ne d, of 0 "[]" 0]
      run_animation_cyclic_order [OF ne d, of 1 "[]" 0]
      run_animation_cyclic_order [OF ne d, of 2 "[]" 0]
      run_animation_cyclic_order [OF ne d, of 3 "[]" 0]
      run_animation_cyclic_order [OF ne d, of 4 "[]" 0]
      run_animation_cyclic_order [OF ne d, of 5 "[]" 0]
    by (simp add: f)
qed


text \<open>
  C4, as stated: the output of \<open>render_frame_difference\<close> is the minimal set of writes,
  each changed row receiving at most one cursor move and at most one erase. It fails when
  the frame shrinks: from the two rows \<open>x\<close>, \<open>y\<close> to the one row \<open>x\<close>, row 1 receives
  the cursor move and the erase twice, once from each loop.
\<close>

theorem render_frame_difference_not_minimal:
  "events_of (render_frame_difference (DifferentialRenderer (1 / 50))
                (Frame ''frame_cleaned_1.txt'' ''x\<newline>y'')
                (Frame ''frame_cleaned_2.txt'' ''x''))
     = [Write (ESC # ''[2;1H''), Write (ESC # ''[2K''),
        Write (ESC # ''[2;1H''), Write (ESC # ''[2K''),
        Flush]
   \<and> move_cursor 0 1 = ESC # ''[2;1H''
   \<and> erase_line (DifferentialRenderer (1 / 50)) = ESC # ''[2K''
   \<and> count_list (events_of (render_frame_difference (DifferentialRenderer (1 / 50))
                                 (Frame ''frame_cleaned_1.txt'' ''x\<newline>y'')
                                 (Frame ''frame_cleaned_2.txt'' ''x'')))
         (Write (move_cursor 0 1)) = 2
   \<and> \<not> count_list (events_of (render_frame_difference (DifferentialRenderer (1 / 50))
                                   (Frame ''frame_cleaned_1.txt'' ''x\<newline>y'')
                                   (Frame ''frame_cleaned_2.txt'' ''x'')))
           (Write (ESC # ''[2K'')) \<le> 1"
proof -
  have l1: "splitlines ''x\<newline>y'' = [''x'', ''y'']"
    by (simp add: splitlines_def is_linebreak_def)
  have l2: "splitlines ''x'' = [''x'']"
    by (simp add: splitlines_def is_linebreak_def)
  have m1: "move_cursor 0 1 = ESC # ''[2;1H''"
    by (simp add: move_cursor_def str_int_def str_nat.simps digit_char_def)
  have u: "[0..(1::int)] = [0, 1]" "[1..(1::int)] = [1]"
    by (simp_all add: upto.simps)
  have e: "events_of (render_frame_difference (DifferentialRenderer (1 / 50))
                (Frame ''frame_cleaned_1.txt'' ''x\<newline>y'')
                (Frame ''frame_cleaned_2.txt'' ''x''))
     = [Write (ESC # ''[2;1H''), Write (ESC # ''[2K''),
        Write (ESC # ''[2;1H''), Write (ESC # ''[2K''),
        Flush]"
    unfolding render_frame_difference_emit events_of_emit
    by (simp add: Frame_fields l1 l2 py_range_def u
        row_events_def clear_events_def get_line_def find_line_differences_def m1
        DifferentialRenderer_def)
  show ?thesis
    unfolding e m1 by (simp add: DifferentialRenderer_def ESC_def)
qed

text \<open>
  C4, amended. For every pair of frames (current, next), the output of
  \<open>render_frame_difference\<close> is what the main loop sends for the rows
  \<open>0 .. max(current.height, next.height) - 1\<close>, then what the trailing loop sends for the
  rows \<open>next.height .. current.height - 1\<close>, then one flush. Rows whose diff reports no
  change receive no output: the main loop sends nothing for them, and none of them is in
  the range of the trailing loop. For a changed row the main loop sends exactly one cursor
  move, one erase and, if \<open>next\<close> has the row, one content write. The trailing loop sends
  one cursor move and one erase for each row of its range, and each of these rows is a
  changed row of the main loop as well: a row from \<open>next.height\<close> to \<open>current.height - 1\<close>
  receives the cursor move and the erase twice. The trailing range is empty when
  \<open>current.height \<le> next.height\<close>, and only then does every changed row receive one
  cursor move and one erase.
\<close>

theorem render_frame_difference_rows:
  fixes r :: renderer and n1 c1 n2 c2 :: string
  defines "current \<equiv> Frame n1 c1" and "next_frame \<equiv> Frame n2 c2"
  shows "events_of (render_frame_difference r current next_frame)
           = concat (map (\<lambda>y. events_of (render_row r current next_frame y))
                       (py_range 0 (max (height current) (height next_frame))))
             @ concat (map (\<lambda>y. events_of (clear_row r y))
                       (py_range (height next_frame) (height current)))
             @ [Flush]
    \<and> (\<forall>y. find_line_differences (get_line current y) (get_line next_frame y) = []
           \<longrightarrow> events_of (render_row r current next_frame y) = []
               \<and> y \<notin> set (py_range (height next_frame) (height current)))
    \<and> (\<forall>y. find_line_differences (get_line current y) (get_line next_frame y) \<noteq> []
           \<longrightarrow> events_of (render_row r current next_frame y)
                 = [Write (move_cursor 0 y), Write (erase_line r)]
                   @ (case get_line next_frame y of Some l \<Rightarrow> [Write l] | None \<Rightarrow> []))
    \<and> (\<forall>y. events_of (clear_row r y) = [Write (move_cursor 0 y), Write (erase_line r)])
    \<and> (\<forall>y. height next_frame \<le> y \<and> y < height current
           \<longrightarrow> y \<in> set (py_range 0 (max (height current) (height next_frame)))
               \<and> y \<in> set (py_range (height next_frame) (height current))
               \<and> find_line_differences (get_line current y) (get_line next_frame y) \<noteq> [])
    \<and> (height current \<le> height next_frame
           \<longrightarrow> py_range (height next_frame) (height current) = [])"
proof -
  have h2: "0 \<le> height next_frame" by (simp add: next_frame_def Frame_fields)
  have 1: "events_of (render_frame_difference r current next_frame)
           = concat (map (\<lambda>y. events_of (render_row r current next_frame y))
                       (py_range 0 (max (height current) (height next_frame))))
             @ concat (map (\<lambda>y. events_of (clear_row r y))
                       (py_range (height next_frame) (height current)))
             @ [Flush]"
    unfolding render_frame_difference_emit render_row_emit clear_row_emit events_of_emit
    by (simp add: py_range_empty)
  have 2: "find_line_differences (get_line current y) (get_line next_frame y) = []
           \<longrightarrow> events_of (render_row r current next_frame y) = []
               \<and> y \<notin> set (py_range (height next_frame) (height current))" for y
    using h2 unfolding render_row_emit events_of_emit
    by (auto simp: row_events_def py_range_def get_line_def find_line_differences_def
        split: if_splits)
  have 3: "find_line_differences (get_line current y) (get_line next_frame y) \<noteq> []
           \<longrightarrow> events_of (render_row r current next_frame y)
                 = [Write (move_cursor 0 y), Write (erase_line r)]
                   @ (case get_line next_frame y of Some l \<Rightarrow> [Write l] | None \<Rightarrow> [])" for y
    unfolding render_row_emit events_of_emit by (simp add: row_events_def)
  have 4: "events_of (clear_row r y) = [Write (move_cursor 0 y), Write (erase_line r)]" for y
    unfolding clear_row_emit events_of_emit by (simp add: clear_events_def)
  have 5: "height next_frame \<le> y \<and> y < height current
           \<longrightarrow> y \<in> set (py_range 0 (max (height current) (height next_frame)))
               \<and> y \<in> set (py_range (height next_frame) (height current))
               \<and> find_line_differences (get_line current y) (get_line next_frame y) \<noteq> []" for y
    using h2 by (auto simp: py_range_def get_line_def find_line_differences_def)
  have 6: "height current \<le> height next_frame
           \<longrightarrow> py_range (height next_frame) (height current) = []"
    by (simp add: py_range_def)
  from 1 2 3 4 5 6 show ?thesis by blast
qed

theorem render_frame_difference_rows_witness:
  "events_of (render_row (DifferentialRenderer (1 / 50))
                (Frame ''frame_cleaned_1.txt'' ''x\<newline>y'') (Frame ''frame_cleaned_2.txt'' ''x'') 0) = []
   \<and> events_of (render_row (DifferentialRenderer (1 / 50))
                (Frame ''frame_cleaned_1.txt'' ''x\<newline>y'') (Frame ''frame_cleaned_2.txt'' ''x'') 1)
       = [Write (move_cursor 0 1), Write (ESC # ''[2K'')]
   \<and> events_of (clear_row (DifferentialRenderer (1 / 50)) 1)
       = [Write (move_cursor 0 1), Write (ESC # ''[2K'')]
   \<and> 1 \<in> set (py_range (height (Frame ''frame_cleaned_2.txt'' ''x''))
                         (height (Frame ''frame_cleaned_1.txt'' ''x\<newline>y'')))
   \<and> py_range (height (Frame ''frame_cleaned_1.txt'' ''x\<newline>y''))
               (height (Frame ''frame_cleaned_2.txt'' ''x'')) = []"
proof -
  have l1: "splitlines ''x\<newline>y'' = [''x'', ''y'']"
    by (simp add: splitlines_def is_linebreak_def)
  have l2: "splitlines ''x'' = [''x'']"
    by (simp add: splitlines_def is_linebreak_def)
  show ?thesis
    using render_frame_difference_rows
      [of "DifferentialRenderer (1 / 50)" "''frame_cleaned_1.txt''" "''x\<newline>y''"
          "''frame_cleaned_2.txt''" "''x''"]
      render_frame_difference_rows
      [of "DifferentialRenderer (1 / 50)" "''frame_cleaned_2.txt''" "''x''"
          "''frame_cleaned_1.txt''" "''x\<newline>y''"]
    by (simp add: Frame_fields l1 l2 get_line_def find_line_differences_def
        DifferentialRenderer_def)
qed

text \<open>
  C5. For every frame \<open>F\<close>, \<open>render_frame_difference(F, F)\<close> sends no cursor move, no erase
  and no row write (it only flushes), so \<open>render_frame(F)\<close> followed by
  \<open>render_frame_difference(F, F)\<close> sends the writes of \<open>render_frame(F)\<close> and nothing more
  to the screen.
\<close>

theorem render_frame_difference_same:
  fixes r :: renderer and nm content :: string and tr :: "event list"
  defines "f \<equiv> Frame nm content"
  shows "render_frame_difference r f f \<lparr>out = tr, sigint = None\<rparr>
           = (Inr (), \<lparr>out = tr @ [Flush], sigint = None\<rparr>)
         \<and> then_do (render_frame r f) (render_frame_difference r f f) \<lparr>out = tr, sigint = None\<rparr>
           = (Inr (), \<lparr>out = out (snd (render_frame r f \<lparr>out = tr, sigint = None\<rparr>)) @ [Flush],
                       sigint = None\<rparr>)"
proof -
  have d: "render_frame_difference r f f = emit [Flush]"
    unfolding render_frame_difference_emit by (simp add: concat_row_events_same del: emit.simps)
  have 1: "render_frame_difference r f f \<lparr>out = tr, sigint = None\<rparr>
           = (Inr (), \<lparr>out = tr @ [Flush], sigint = None\<rparr>)"
    unfolding d emit_uninterrupted ..
  have 2: "then_do (render_frame r f) (render_frame_difference r f f) \<lparr>out = tr, sigint = None\<rparr>
           = (Inr (), \<lparr>out = out (snd (render_frame r f \<lparr>out = tr, sigint = None\<rparr>)) @ [Flush],
                       sigint = None\<rparr>)"
    unfolding d render_frame_emit then_do_emit emit_uninterrupted by simp
  from 1 2 show ?thesis by simp
qed

theorem render_frame_difference_same_witness:
  "render_frame_difference (DifferentialRenderer (1 / 50))
       (Frame ''frame_cleaned_1.txt'' ''x\<newline>y'') (Frame ''frame_cleaned_1.txt'' ''x\<newline>y'')
       \<lparr>out = [], sigint = None\<rparr>
     = (Inr (), \<lparr>out = [Flush], sigint = None\<rparr>)"
  using render_frame_difference_same
    [of "DifferentialRenderer (1 / 50)" "''frame_cleaned_1.txt''" "''x\<newline>y''" "[]"]
  by simp

text \<open>
  C6. For every name and text, \<open>Frame\<close> yields a frame whose lines are the lines the text
  splits into and whose height is their number, with \<open>width \<ge> 0\<close>; a frame of zero lines
  has height 0 and width 0; \<open>get_line(y)\<close> is the row at index \<open>y\<close> for \<open>0 \<le> y < height\<close>
  and "no row" (\<open>None\<close>, which is not the empty row \<open>Some ''''\<close>) for every \<open>y \<ge> height\<close> and
  every \<open>y < 0\<close>.
\<close>

theorem Frame_spec:
  fixes nm content :: string
  defines "f \<equiv> Frame nm content"
  shows "lines f = splitlines content
    \<and> height f = int (length (lines f))
    \<and> 0 \<le> width f
    \<and> (lines f = [] \<longrightarrow> height f = 0 \<and> width f = 0)
    \<and> (\<forall>y. 0 \<le> y \<and> y < height f \<longrightarrow> get_line f y = Some (lines f ! nat y))
    \<and> (\<forall>y. height f \<le> y \<longrightarrow> get_line f y = None)
    \<and> (\<forall>y. y < 0 \<longrightarrow> get_line f y = None)"
proof -
  have w: "0 \<le> width f" unfolding f_def by (rule Frame_width_nonneg)
  have e: "lines f = [] \<longrightarrow> height f = 0 \<and> width f = 0"
    by (simp add: f_def Frame_def Let_def)
  show ?thesis using w e by (simp add: get_line_def f_def Frame_fields)
qed

theorem Frame_spec_witness:
  "height (Frame ''frame_cleaned_1.txt'' ''ab\<newline>\<newline>cd'') = 3
   \<and> 0 \<le> width (Frame ''frame_cleaned_1.txt'' ''ab\<newline>\<newline>cd'')
   \<and> get_line (Frame ''frame_cleaned_1.txt'' ''ab\<newline>\<newline>cd'') 1 = Some ''''
   \<and> get_line (Frame ''frame_cleaned_1.txt'' ''ab\<newline>\<newline>cd'') 3 = None
   \<and> get_line (Frame ''frame_cleaned_1.txt'' ''ab\<newline>\<newline>cd'') (- 1) = None
   \<and> height (Frame ''frame_cleaned_2.txt'' '''') = 0
   \<and> width (Frame ''frame_cleaned_2.txt'' '''') = 0"
proof -
  have l: "splitlines ''ab\<newline>\<newline>cd'' = [''ab'', '''', ''cd'']"
    by (simp add: splitlines_def is_linebreak_def)
  have e: "splitlines '''' = []"
    by (simp add: splitlines_def)
  show ?thesis
    using Frame_spec [of "''frame_cleaned_1.txt''" "''ab\<newline>\<newline>cd''"]
      Frame_spec [of "''frame_cleaned_2.txt''" "''''"]
    by (simp add: l e)
qed

text \<open>
  C7. When the interrupt arrives at any step of a run of \<open>run_animation\<close> on a non-empty
  frame sequence (after any number \<open>k\<close> of completed writes, flushes and sleeps, so at any
  step of the loop body), \<open>run_animation\<close> catches it and returns normally after the
  teardown: it writes the show-cursor sequence, clears the screen, disables the
  synchronized-update mode, writes the "stopped" notice and flushes.
\<close>

theorem run_animation_interrupt_teardown:
  assumes "frames r \<noteq> []" and "0 \<le> frame_delay r"
  shows "\<exists>tr'. run_animation r \<lparr>out = tr, sigint = Some k\<rparr>
           = Some (Inr (),
               \<lparr>out = tr @ tr'
                    @ [Write (show_cursor r), Write (clear r), Write (disable_sync_rendering r),
                       Flush, Write ''Animation stopped.\<newline>'', Flush],
                 sigint = None\<rparr>)"
proof -
  obtain tr' where t: "run_animation_try r \<lparr>out = tr, sigint = Some k\<rparr>
           = Some (Inl KeyboardInterrupt, \<lparr>out = tr @ tr', sigint = None\<rparr>)"
    using run_animation_try_interrupted [OF assms] by blast
  have "run_animation r \<lparr>out = tr, sigint = Some k\<rparr>
           = Some (Inr (), \<lparr>out = tr @ tr' @ teardown_events r, sigint = None\<rparr>)"
    unfolding run_animation_def run_animation_finally_emit
    using assms by (simp add: t emit_uninterrupted)
  then show ?thesis unfolding teardown_events_def by blast
qed

theorem run_animation_interrupt_teardown_witness:
  "\<exists>tr'. run_animation example_renderer \<lparr>out = [], sigint = Some 40\<rparr>
           = Some (Inr (),
               \<lparr>out = [] @ tr'
                    @ [Write (ESC # ''[?25h''), Write ((ESC # ''[2J'') @ (ESC # ''[H'')),
                       Write (ESC # ''[?2026l''),
                       Flush, Write ''Animation stopped.\<newline>'', Flush],
                 sigint = None\<rparr>)"
proof -
  have ne: "frames example_renderer \<noteq> []"
    and d: "0 \<le> frame_delay example_renderer"
    by (simp_all add: example_renderer_def DifferentialRenderer_def)
  show ?thesis
    using run_animation_interrupt_teardown [OF ne d, of "[]" 40]
    by (simp add: example_renderer_def DifferentialRenderer_def)
qed

text \<open>
  C8. If the frame sequence is empty, \<open>run_animation\<close> returns at once: no setup, no
  teardown, nothing written.
\<close>

theorem run_animation_empty:
  "frames r = [] \<Longrightarrow> run_animation r w = Some (Inr (), w)"
  by (simp add: run_animation_def)

theorem run_animation_empty_witness:
  "run_animation (DifferentialRenderer (1 / 50)) \<lparr>out = [], sigint = None\<rparr>
     = Some (Inr (), \<lparr>out = [], sigint = None\<rparr>)"
  using run_animation_empty [of "DifferentialRenderer (1 / 50)" "\<lparr>out = [], sigint = None\<rparr>"]
  by (simp add: DifferentialRenderer_def)


text \<open>
  C9, as stated: whenever files matching the prefix \<open>frame_cleaned_\<close> and the suffix \<open>.txt\<close>
  exist, the frames are loaded in the order of their index and the call returns their
  number. It fails for a matching file whose name holds no integer index: with the one
  file \<open>frame_cleaned_x.txt\<close>, the sort key raises \<open>ValueError\<close> from \<open>int('x')\<close>, and
  \<open>load_frames\<close> raises it with no frame loaded.
\<close>

theorem load_frames_index_not_integer:
  "filter is_frame_file [''frame_cleaned_x.txt''] = [''frame_cleaned_x.txt'']
   \<and> load_frames (DifferentialRenderer (1 / 50)) (example_dir [''frame_cleaned_x.txt''])
       = (Inl (ValueError (''invalid literal for int() with base 10: ''
                            @ [CHR 0x27] @ ''x'' @ [CHR 0x27])),
          DifferentialRenderer (1 / 50))"
proof -
  have m: "filter is_frame_file [''frame_cleaned_x.txt''] = [''frame_cleaned_x.txt'']"
    by (simp add: is_frame_file_def startswith_def endswith_def)
  have p: "py_split ''frame_cleaned_x.txt'' (CHR ''_'') = [''frame'', ''cleaned'', ''x.txt'']"
    by (simp add: py_split_def)
  have r: "py_repr ''x'' = [CHR 0x27] @ ''x'' @ [CHR 0x27]"
    by (simp add: py_repr_def Let_def repr_quote_def repr_char_def py_ord_def)
  have s: "int_space (CHR ''x'') = False" "is_digit (CHR ''x'') = False"
    by (simp_all add: int_space_def is_digit_def in_range_def py_ord_def)
  have i: "frame_index ''frame_cleaned_x.txt''
      = Inl (ValueError (''invalid literal for int() with base 10: '' @ [CHR 0x27] @ ''x'' @ [CHR 0x27]))"
    by (simp add: frame_index_def p py_int_def Let_def s r)
  have f: "is_frame_file ''frame_cleaned_x.txt''"
    by (simp add: is_frame_file_def startswith_def endswith_def)
  have "load_frames (DifferentialRenderer (1 / 50)) (example_dir [''frame_cleaned_x.txt''])
       = (Inl (ValueError (''invalid literal for int() with base 10: ''
                            @ [CHR 0x27] @ ''x'' @ [CHR 0x27])),
          DifferentialRenderer (1 / 50))"
    by (simp add: f load_frames_def example_dir_def py_sorted_def i)
  with m show ?thesis by simp
qed

text \<open>
  C9, amended. Where \<open>os.listdir\<close> returns the names of the directory: \<open>load_frames\<close>
  raises \<open>ValueError("No frame files found")\<close> if and only if no name has the prefix
  \<open>frame_cleaned_\<close> and the suffix \<open>.txt\<close>; when it raises it, the frame list of the renderer
  is unchanged, and \<open>main\<close> prints \<open>Error: No frame files found\<close> and returns without
  entering playback (no control sequence is written). When matching files exist and, in
  addition, \<open>int\<close> accepts the text between the last underscore and \<open>.txt\<close> of every matching
  name and every matching file can be opened and decoded, the frames are appended to the
  frame list in ascending order of that integer (the stable sort of the matching names by
  it), and the call returns the length of the frame list, which is the number of matching
  files when the list was empty before.
\<close>

theorem load_frames_spec:
  fixes r :: renderer and d :: directory and names :: "string list" and tr :: "event list"
  defines "matching \<equiv> filter is_frame_file names"
  assumes nm: "listdir d = Inr names"
  shows "(fst (load_frames r d) = Inl (ValueError ''No frame files found'') \<longleftrightarrow> matching = [])
    \<and> (matching = [] \<longrightarrow>
          load_frames r d = (Inl (ValueError ''No frame files found''), r)
          \<and> main d \<lparr>out = tr, sigint = None\<rparr>
              = Some (Inr (), \<lparr>out = tr @ [Write ''Error: No frame files found'', Write ''\<newline>''],
                              sigint = None\<rparr>))
    \<and> (matching \<noteq> []
         \<and> (\<forall>f \<in> set matching. \<exists>i. frame_index f = Inr i)
         \<and> (\<forall>f \<in> set matching. \<exists>c. read_text d f = Text c) \<longrightarrow>
          load_frames r d
            = (Inr (int (length (frames r) + length matching)),
               r\<lparr>frames := frames r
                    @ map (\<lambda>f. Frame f (text_of d f)) (sort_key index_of matching)\<rparr>)
          \<and> sorted (map index_of (sort_key index_of matching))
          \<and> set (sort_key index_of matching) = set matching)"
proof -
  have none: "load_frames r0 d = (Inl (ValueError ''No frame files found''), r0)"
    if "matching = []" for r0
    using that nm by (simp add: load_frames_def matching_def py_sorted_Nil)
  have only_if: "matching = []" if e: "fst (load_frames r d) = Inl (ValueError ''No frame files found'')"
  proof (rule ccontr)
    assume ne: "matching \<noteq> []"
    show False
    proof (cases "py_sorted frame_index matching")
      case (Inl x)
      then obtain f where "frame_index f = Inl x" using py_sorted_fail by blast
      then have "x \<noteq> ValueError ''No frame files found''" by (rule frame_index_error)
      moreover have "fst (load_frames r d) = Inl x"
        using nm Inl by (simp add: load_frames_def matching_def)
      ultimately show False using e by simp
    next
      case (Inr files)
      then have "length files = length matching" by (rule py_sorted_length)
      with ne have fne: "files \<noteq> []" by auto
      show False
      proof (cases "read_frames d files r")
        case (Pair res r')
        show False
        proof (cases res)
          case (Inl x)
          with Pair have "(\<exists>m. x = OSError m) \<or> (\<exists>m. x = UnicodeDecodeError m)"
            using read_frames_error by blast
          moreover have "fst (load_frames r d) = Inl x"
            using nm \<open>py_sorted frame_index matching = Inr files\<close> fne Pair Inl
            by (simp add: load_frames_def matching_def)
          ultimately show False using e by auto
        next
          case (Inr u)
          have "fst (load_frames r d) = Inr (int (length (frames r')))"
            using nm \<open>py_sorted frame_index matching = Inr files\<close> fne Pair Inr
            by (simp add: load_frames_def matching_def)
          with e show False by simp
        qed
      qed
    qed
  qed
  have 1: "fst (load_frames r d) = Inl (ValueError ''No frame files found'') \<longleftrightarrow> matching = []"
    using only_if none [of r] by auto
  have m: "main d \<lparr>out = tr, sigint = None\<rparr>
              = Some (Inr (), \<lparr>out = tr @ [Write ''Error: No frame files found'', Write ''\<newline>''],
                              sigint = None\<rparr>)"
    if "matching = []"
  proof -
    have p: "print s = emit [Write s, Write ''\<newline>'']" for s
      unfolding print_def block.simps stdout_write_emit then_do_skip_right then_do_emit by simp
    show ?thesis
      unfolding main_def Let_def none [OF that] prod.case sum.case main_except_def p
      by (simp add: str_exn_def emit_uninterrupted del: emit.simps)
  qed
  have 3: "load_frames r d
            = (Inr (int (length (frames r) + length matching)),
               r\<lparr>frames := frames r
                    @ map (\<lambda>f. Frame f (text_of d f)) (sort_key index_of matching)\<rparr>)"
    if ne: "matching \<noteq> []"
      and idx: "\<forall>f \<in> set matching. \<exists>i. frame_index f = Inr i"
      and rd: "\<forall>f \<in> set matching. \<exists>c. read_text d f = Text c"
  proof -
    have key: "frame_index f = Inr (index_of f)" if "f \<in> set matching" for f
      using idx that by (auto simp: index_of_def)
    have srt: "py_sorted frame_index (filter is_frame_file names) = Inr (sort_key index_of matching)"
      unfolding matching_def [symmetric] by (rule py_sorted_ok) (rule key)
    have sne: "sort_key index_of matching \<noteq> []"
      using ne by (metis length_sort length_0_conv)
    have "load_frames r d
           = (Inr (int (length (frames r) + length (sort_key index_of matching))),
              r\<lparr>frames := frames r
                   @ map (\<lambda>f. Frame f (text_of d f)) (sort_key index_of matching)\<rparr>)"
      by (rule load_frames_run [OF nm srt sne]) (use rd in simp)
    then show ?thesis by simp
  qed
  from 1 none [of r] m 3 show ?thesis by simp
qed

theorem load_frames_spec_witness:
  "load_frames (DifferentialRenderer (1 / 50))
       (example_dir [''frame_cleaned_10.txt'', ''notes.txt'', ''frame_cleaned_2.txt''])
     = (Inr 2,
        (DifferentialRenderer (1 / 50))
          \<lparr>frames := [Frame ''frame_cleaned_2.txt'' ''+frame_cleaned_2.txt'',
                      Frame ''frame_cleaned_10.txt'' ''+frame_cleaned_10.txt'']\<rparr>)
   \<and> load_frames (DifferentialRenderer (1 / 50)) (example_dir [''notes.txt''])
       = (Inl (ValueError ''No frame files found''), DifferentialRenderer (1 / 50))
   \<and> main (example_dir [''notes.txt'']) \<lparr>out = [], sigint = None\<rparr>
       = Some (Inr (), \<lparr>out = [Write ''Error: No frame files found'', Write ''\<newline>''],
                        sigint = None\<rparr>)"
proof -
  have l: "listdir (example_dir ns) = Inr ns" for ns
    by (simp add: example_dir_def)
  have t: "read_text (example_dir ns) f = Text (''+'' @ f)" for ns f
    by (simp add: example_dir_def)
  have m: "filter is_frame_file [''frame_cleaned_10.txt'', ''notes.txt'', ''frame_cleaned_2.txt'']
             = [''frame_cleaned_10.txt'', ''frame_cleaned_2.txt'']"
    "filter is_frame_file [''notes.txt''] = []"
    by (simp_all add: is_frame_file_def startswith_def endswith_def)
  have i: "frame_index ''frame_cleaned_10.txt'' = Inr 10" "frame_index ''frame_cleaned_2.txt'' = Inr 2"
    by code_simp+
  have x: "index_of ''frame_cleaned_10.txt'' = 10" "index_of ''frame_cleaned_2.txt'' = 2"
    by (simp_all add: index_of_def i)
  have fr: "frames (DifferentialRenderer (1 / 50)) = []"
    by (simp add: DifferentialRenderer_def)
  show ?thesis
    using load_frames_spec
      [OF l, of "DifferentialRenderer (1 / 50)"
         "[''frame_cleaned_10.txt'', ''notes.txt'', ''frame_cleaned_2.txt'']" "[]"]
      load_frames_spec [OF l, of "DifferentialRenderer (1 / 50)" "[''notes.txt'']" "[]"]
    unfolding m
    by (simp add: i x t fr text_of_def)
qed

text \<open>
  C10. \<open>load_frames\<close> appends the frames it loads to the frame list the renderer already
  has, and returns the length of the whole list. So a second call on the same directory
  appends the same frames again; on a renderer whose list was empty before the first call
  (as \<open>__init__\<close> leaves it), the second call returns twice what the first returned and
  the frame list holds every frame twice.
\<close>

theorem load_frames_twice:
  assumes "load_frames r d = (Inr n, r1)"
  shows "\<exists>loaded. frames r1 = frames r @ loaded
           \<and> n = int (length (frames r1))
           \<and> load_frames r1 d = (Inr (n + int (length loaded)), r1\<lparr>frames := frames r1 @ loaded\<rparr>)
           \<and> (frames r = [] \<longrightarrow>
                 load_frames r1 d = (Inr (2 * n), r1\<lparr>frames := frames r1 @ frames r1\<rparr>))"
proof -
  obtain names files where nm: "listdir d = Inr names"
    and fl: "py_sorted frame_index (filter is_frame_file names) = Inr files"
    and ne: "files \<noteq> []"
    and ok: "\<forall>f \<in> set files. \<exists>c. read_text d f = Text c"
    and r1: "r1 = r\<lparr>frames := frames r @ map (\<lambda>f. Frame f (text_of d f)) files\<rparr>"
    and n: "n = int (length (frames r1))"
    using load_frames_success [OF assms] by blast
  let ?loaded = "map (\<lambda>f. Frame f (text_of d f)) files"
  have a: "frames r1 = frames r @ ?loaded" by (simp add: r1)
  have again: "load_frames r1 d
      = (Inr (int (length (frames r1) + length files)), r1\<lparr>frames := frames r1 @ ?loaded\<rparr>)"
    by (rule load_frames_run [OF nm fl ne]) (use ok in blast)
  have b: "load_frames r1 d = (Inr (n + int (length ?loaded)), r1\<lparr>frames := frames r1 @ ?loaded\<rparr>)"
    using again by (simp add: n)
  have c: "frames r = [] \<longrightarrow>
      load_frames r1 d = (Inr (2 * n), r1\<lparr>frames := frames r1 @ frames r1\<rparr>)"
    using b a n by simp
  from a n b c show ?thesis by blast
qed

theorem load_frames_twice_witness:
  "load_frames
       ((DifferentialRenderer (1 / 50))
          \<lparr>frames := [Frame ''frame_cleaned_2.txt'' ''+frame_cleaned_2.txt'',
                      Frame ''frame_cleaned_10.txt'' ''+frame_cleaned_10.txt'']\<rparr>)
       (example_dir [''frame_cleaned_10.txt'', ''notes.txt'', ''frame_cleaned_2.txt''])
     = (Inr 4,
        (DifferentialRenderer (1 / 50))
          \<lparr>frames := [Frame ''frame_cleaned_2.txt'' ''+frame_cleaned_2.txt'',
                      Frame ''frame_cleaned_10.txt'' ''+frame_cleaned_10.txt'',
                      Frame ''frame_cleaned_2.txt'' ''+frame_cleaned_2.txt'',
                      Frame ''frame_cleaned_10.txt'' ''+frame_cleaned_10.txt'']\<rparr>)"
proof -
  let ?d = "example_dir [''frame_cleaned_10.txt'', ''notes.txt'', ''frame_cleaned_2.txt'']"
  let ?r1 = "(DifferentialRenderer (1 / 50))
          \<lparr>frames := [Frame ''frame_cleaned_2.txt'' ''+frame_cleaned_2.txt'',
                      Frame ''frame_cleaned_10.txt'' ''+frame_cleaned_10.txt'']\<rparr>"
  have i: "frame_index ''frame_cleaned_10.txt'' = Inr 10" "frame_index ''frame_cleaned_2.txt'' = Inr 2"
    by code_simp+
  have f: "is_frame_file ''frame_cleaned_10.txt''" "\<not> is_frame_file ''notes.txt''"
    "is_frame_file ''frame_cleaned_2.txt''"
    by (simp_all add: is_frame_file_def startswith_def endswith_def)
  have first: "load_frames (DifferentialRenderer (1 / 50)) ?d = (Inr 2, ?r1)"
    by (simp add: load_frames_def example_dir_def f py_sorted_def i DifferentialRenderer_def)
  have fr: "frames (DifferentialRenderer (1 / 50)) = []"
    by (simp add: DifferentialRenderer_def)
  show ?thesis
    using load_frames_twice [OF first] by (simp add: fr)
qed


end
